theory Spec2Isabelle
  imports Main "HOL-Library.Multiset"
begin

section \<open>Values, actions and closures of IO.js\<close>

text \<open>
  The library is written in continuation-passing style: an action is a JavaScript function
  \<^verbatim>\<open>function (M, input, success, failure)\<close> whose continuations are actions again.
  The closures that the combinators of the source build are represented by the
  constructors of \<open>action\<close> (one constructor per closure-creating function of the source,
  carrying the captured variables), the one-argument callbacks by \<open>cb\<close>. Plain objects,
  IOError objects, arrays and function values are passed by value with the list of the
  named properties that were set on them; IOPauseCondition objects live in a store, since
  their callback list is shared.
\<close>

datatype val =
    Undefined
  | Null
  | Num int
  | Str string
  | Arr "val list" "(string \<times> val) list"
      \<comment> \<open>the elements, and the named properties\<close>
  | Obj "(string \<times> val) list"
  | IOError nat val val action action "(string \<times> val) list"
      \<comment> \<open>\<^verbatim>\<open>new IOError(M, error, input, success, failure)\<close> and the properties added later\<close>
  | PauseRef nat
  | FunV cb "(string \<times> val) list"
  | ActV action "(string \<times> val) list"
  | OrchV nat
and cb =
    AutoBranch nat action action action
      \<comment> \<open>\<^verbatim>\<open>autobranch(M, action, success, failure)\<close>\<close>
  | PauseResumeM nat
      \<comment> \<open>the method \<^verbatim>\<open>IOPauseCondition.prototype.resume\<close> of a pause condition\<close>
and action =
    Drain
  | Pass
  | Fail
  | NotAFunction
  | Seq action action
  | Branch action action action
  | ChainD "action list"
  | ChainIter "action list" nat action
  | Raise val
  | Forgive
  | Catch action
  | SendKV string val action
  | Supply val
  | MapTag nat
  | Probe string
  | Delay int
  | Pause
  | WrapFn ufn
  | WrapAsync3 ufn3
  | WrapAsync3Inner ufn3
  | Fork "action list"
  | ForkJoin nat
  | ForkErrJoin nat
  | SyncNow nat
  | SyncLater nat
  | ChanSend nat
  | ChanRecv nat
  | AtomicDoit nat action
  | AtomicDone nat action
  | Gen nat
  | GenOne nat
  | InterruptWrap string action
  | InterruptAct nat
and ufn =
    UResume val
      \<comment> \<open>the user function \<^verbatim>\<open>function (err) { err.resume(v); }\<close>\<close>
and ufn3 =
    GenHandler nat nat val action action
      \<comment> \<open>the handler \<^verbatim>\<open>function (error, resume, giveup)\<close> inside \<^verbatim>\<open>gen_\<close>\<close>

text \<open>Zero-argument closures: the callbacks registered on a pause condition.\<close>

datatype thunk =
    GenResume nat nat val action action
      \<comment> \<open>\<^verbatim>\<open>function () { paused = false; M.call(gen_, input, success, failure); }\<close>\<close>

text \<open>
  What runs: a call through the orchestrator, the direct application of an action
  function, the task that \<^verbatim>\<open>call\<close> hands to \<^verbatim>\<open>nextTick\<close>, the invocation of a
  callback, and the loop of \<^verbatim>\<open>IOPauseCondition.prototype.resume\<close>.
\<close>

datatype cmd =
    Call nat action val action action
  | App nat action val action action
  | Recall nat action val action action
  | Invoke cb val
  | RunThunk thunk
  | PauseResume nat

section \<open>The state\<close>

record orch =
  proto :: "nat option"
  own_depth :: "int option"

record pausecond =
  resume_callbacks :: "thunk list"
  pause_props :: "(string \<times> val) list"

record atomic_cell =
  arr :: "(val \<times> action \<times> action) list"
  busy :: bool
  pauseStream :: "nat option"

record chan_cell =
  waiters :: "(nat \<times> action \<times> action) list"
    \<comment> \<open>each waiter is the closure pushed by \<^verbatim>\<open>recv_chan\<close>, with its \<^verbatim>\<open>M\<close>,
        \<^verbatim>\<open>success\<close> and \<^verbatim>\<open>failure\<close>\<close>
  queue :: "val list"

record sync_cell =
  countDown :: int
  followon :: "(nat \<times> val \<times> action \<times> action) option"

record gen_cell =
  paused :: bool
  genCount :: int
  delay_ms :: int
  producer :: "nat \<Rightarrow> val"
  produced :: nat

record fork_frame =
  fork_M :: nat
  fork_success :: action
  fork_failure :: action
  fork_length :: nat
  countUp :: nat
  errUp :: nat
  results :: "val list"
  named :: "(string \<times> val) list"
    \<comment> \<open>the elements of the array \<^verbatim>\<open>results\<close>, and its named properties\<close>

record state =
  orchs :: "nat \<Rightarrow> orch"
  next_orch :: nat
  maxdepth :: int
  kBufferCapacity :: int
  ticks :: "cmd list"
  timers :: "(int \<times> cmd) list"
  pauses :: "nat \<Rightarrow> pausecond"
  next_pause :: nat
  atomics :: "nat \<Rightarrow> atomic_cell"
  chans :: "nat \<Rightarrow> chan_cell"
  syncs :: "nat \<Rightarrow> sync_cell"
  gens :: "nat \<Rightarrow> gen_cell"
  forks :: "nat \<Rightarrow> fork_frame"
  next_fork :: nat
  interrupts :: "nat \<Rightarrow> action"
  host_cont :: "action option"
    \<comment> \<open>what the identifier \<^verbatim>\<open>cont\<close> is bound to: no scope of the file declares it, so
        it has a value only when the host program defines a global of that name\<close>
  trace :: "(string \<times> val) list"

text \<open>
  A JavaScript function returns, or throws a value after the effects it had so far.
\<close>

datatype outcome = Done state | Threw val state

definition then_do :: "outcome option \<Rightarrow> (state \<Rightarrow> outcome option) \<Rightarrow> outcome option" where
  "then_do r k = (case r of None \<Rightarrow> None | Some (Done \<sigma>) \<Rightarrow> k \<sigma> | Some (Threw e \<sigma>) \<Rightarrow> Some (Threw e \<sigma>))"

text \<open>\<^verbatim>\<open>try { ... } catch (e) { k(e) }\<close> around a computation with the outcome \<open>r\<close>.\<close>

definition caught :: "outcome option \<Rightarrow> (val \<Rightarrow> state \<Rightarrow> outcome option) \<Rightarrow> outcome option" where
  "caught r k = (case r of Some (Threw e \<sigma>) \<Rightarrow> k e \<sigma> | _ \<Rightarrow> r)"

section \<open>Properties of objects\<close>

definition type_error :: val where
  "type_error = Obj [(''name'', Str ''TypeError'')]"

definition reference_error :: val where
  "reference_error = Obj [(''name'', Str ''ReferenceError'')]"

definition put_prop :: "string \<Rightarrow> val \<Rightarrow> (string \<times> val) list \<Rightarrow> (string \<times> val) list" where
  "put_prop k v ps = (k, v) # filter (\<lambda>p. fst p \<noteq> k) ps"

definition del_prop :: "string \<Rightarrow> (string \<times> val) list \<Rightarrow> (string \<times> val) list" where
  "del_prop k ps = filter (\<lambda>p. fst p \<noteq> k) ps"

definition prop_of :: "(string \<times> val) list \<Rightarrow> string \<Rightarrow> val" where
  "prop_of ps k = (case map_of ps k of Some v \<Rightarrow> v | None \<Rightarrow> Undefined)"

text \<open>
  \<^verbatim>\<open>x[k]\<close>: reading a property of \<^verbatim>\<open>undefined\<close> or \<^verbatim>\<open>null\<close> throws a TypeError
  (\<open>None\<close>). An IOError has the fields its constructor sets, \<^verbatim>\<open>resume\<close> being
  \<^verbatim>\<open>autobranch(M, success, M.drain, failure)\<close> and \<^verbatim>\<open>rollback\<close> being
  \<^verbatim>\<open>autodrain(M, failure)\<close>; a pause condition has the method \<^verbatim>\<open>resume\<close> of its
  prototype. An array and a function have the named properties that were set on them; a
  number and a string have none. The names that the code reads and writes this way are
  \<^verbatim>\<open>restart\<close>, \<^verbatim>\<open>index\<close>, \<^verbatim>\<open>value\<close>, \<^verbatim>\<open>input\<close> and \<^verbatim>\<open>resume\<close>: none of them is an element
  index or a built-in property (\<^verbatim>\<open>length\<close>, \<^verbatim>\<open>name\<close>) of an array, a string or a function.
  An orchestrator is a value only as the field \<^verbatim>\<open>M\<close> of an IOError, which none of the
  actions here reads; its properties are not looked up through \<open>get_prop\<close>.
\<close>

fun get_prop :: "state \<Rightarrow> string \<Rightarrow> val \<Rightarrow> val option" where
  "get_prop \<sigma> k Undefined = None"
| "get_prop \<sigma> k Null = None"
| "get_prop \<sigma> k (Obj ps) = Some (prop_of ps k)"
| "get_prop \<sigma> k (IOError m e i s f ps) =
     Some (case map_of ps k of
             Some v \<Rightarrow> v
           | None \<Rightarrow>
               if k = ''M'' then OrchV m
               else if k = ''error'' then e
               else if k = ''input'' then i
               else if k = ''resume'' then FunV (AutoBranch m s Drain f) []
               else if k = ''rollback'' then FunV (AutoBranch m f Drain Drain) []
               else if k = ''success'' then ActV s []
               else if k = ''failure'' then ActV f []
               else Undefined)"
| "get_prop \<sigma> k (PauseRef p) =
     Some (case map_of (pause_props (pauses \<sigma> p)) k of
             Some v \<Rightarrow> v
           | None \<Rightarrow> if k = ''resume'' then FunV (PauseResumeM p) [] else Undefined)"
| "get_prop \<sigma> k (Arr xs ps) = Some (prop_of ps k)"
| "get_prop \<sigma> k (FunV c ps) = Some (prop_of ps k)"
| "get_prop \<sigma> k (ActV a ps) = Some (prop_of ps k)"
| "get_prop \<sigma> k v = Some Undefined"

text \<open>
  \<^verbatim>\<open>x[k] = v\<close> in non-strict code: a TypeError on \<^verbatim>\<open>undefined\<close> and \<^verbatim>\<open>null\<close>
  (\<open>None\<close>), silently nothing on a number or a string, a property of its own on an object,
  an array or a function.
\<close>

fun set_prop :: "string \<Rightarrow> val \<Rightarrow> val \<Rightarrow> state \<Rightarrow> (val \<times> state) option" where
  "set_prop k v Undefined \<sigma> = None"
| "set_prop k v Null \<sigma> = None"
| "set_prop k v (Obj ps) \<sigma> = Some (Obj (put_prop k v ps), \<sigma>)"
| "set_prop k v (IOError m e i s f ps) \<sigma> = Some (IOError m e i s f (put_prop k v ps), \<sigma>)"
| "set_prop k v (PauseRef p) \<sigma> =
     Some (PauseRef p,
           \<sigma>\<lparr>pauses := (pauses \<sigma>)(p := (pauses \<sigma> p)\<lparr>pause_props := put_prop k v (pause_props (pauses \<sigma> p))\<rparr>)\<rparr>)"
| "set_prop k v (Arr xs ps) \<sigma> = Some (Arr xs (put_prop k v ps), \<sigma>)"
| "set_prop k v (FunV c ps) \<sigma> = Some (FunV c (put_prop k v ps), \<sigma>)"
| "set_prop k v (ActV a ps) \<sigma> = Some (ActV a (put_prop k v ps), \<sigma>)"
| "set_prop k v x \<sigma> = Some (x, \<sigma>)"

text \<open>\<^verbatim>\<open>delete x[k]\<close>, on a value whose property has just been read.\<close>

fun delete_prop :: "string \<Rightarrow> val \<Rightarrow> state \<Rightarrow> val \<times> state" where
  "delete_prop k (Obj ps) \<sigma> = (Obj (del_prop k ps), \<sigma>)"
| "delete_prop k (IOError m e i s f ps) \<sigma> = (IOError m e i s f (del_prop k ps), \<sigma>)"
| "delete_prop k (PauseRef p) \<sigma> =
     (PauseRef p,
      \<sigma>\<lparr>pauses := (pauses \<sigma>)(p := (pauses \<sigma> p)\<lparr>pause_props := del_prop k (pause_props (pauses \<sigma> p))\<rparr>)\<rparr>)"
| "delete_prop k (Arr xs ps) \<sigma> = (Arr xs (del_prop k ps), \<sigma>)"
| "delete_prop k (FunV c ps) \<sigma> = (FunV c (del_prop k ps), \<sigma>)"
| "delete_prop k (ActV a ps) \<sigma> = (ActV a (del_prop k ps), \<sigma>)"
| "delete_prop k x \<sigma> = (x, \<sigma>)"

text \<open>
  \<^verbatim>\<open>results[ix] = v\<close> on an array. In \<^verbatim>\<open>fork_\<close> the key \<open>ix\<close> is what \<^verbatim>\<open>output.index\<close> or
  \<^verbatim>\<open>err.index\<close> reads as: the number that \<^verbatim>\<open>fork_\<close> itself put there, or \<^verbatim>\<open>undefined\<close> when
  the value cannot carry a property. For a number that is an index, JavaScript sets that
  element and extends the array if it has to, leaving holes that read as \<^verbatim>\<open>undefined\<close>
  (\<open>array_set\<close>). For \<^verbatim>\<open>undefined\<close> it sets the property named \<^verbatim>\<open>"undefined"\<close> and leaves
  the elements alone (\<open>named_set\<close>). Any other key, which \<^verbatim>\<open>fork_\<close> does not meet, is taken
  the same way: the value is stored as a property under the string form of the key,
  \<open>key_of\<close>, which is the decimal digits of a number, the string itself, \<^verbatim>\<open>"null"\<close>, and
  \<^verbatim>\<open>"[object Object]"\<close> for everything else.
\<close>

definition array_set :: "val list \<Rightarrow> val \<Rightarrow> val \<Rightarrow> val list" where
  "array_set xs ix v =
     (case ix of
        Num j \<Rightarrow>
          if 0 \<le> j then
            (if nat j < length xs then xs[nat j := v]
             else xs @ replicate (nat j - length xs) Undefined @ [v])
          else xs
      | _ \<Rightarrow> xs)"

fun dec :: "nat \<Rightarrow> string" where
  "dec n = (if n < 10 then [char_of (48 + n)] else dec (n div 10) @ [char_of (48 + n mod 10)])"

declare dec.simps [simp del]

fun key_of :: "val \<Rightarrow> string" where
  "key_of Undefined = ''undefined''"
| "key_of Null = ''null''"
| "key_of (Str s) = s"
| "key_of (Num j) = (if 0 \<le> j then dec (nat j) else CHR ''-'' # dec (nat (- j)))"
| "key_of v = ''[object Object]''"

definition named_set :: "(string \<times> val) list \<Rightarrow> val \<Rightarrow> val \<Rightarrow> (string \<times> val) list" where
  "named_set ps ix v =
     (case ix of
        Num j \<Rightarrow> if 0 \<le> j then ps else put_prop (key_of ix) v ps
      | _ \<Rightarrow> put_prop (key_of ix) v ps)"

section \<open>The orchestrator\<close>

text \<open>
  \<^verbatim>\<open>M.depth\<close> is read along the prototype chain: \<^verbatim>\<open>Object.create(M)\<close> in
  \<^verbatim>\<open>fork_\<close> makes an orchestrator that has no \<^verbatim>\<open>depth\<close> of its own until its first
  \<^verbatim>\<open>call\<close> writes one. A prototype is created before the objects that inherit from it.
  \<^verbatim>\<open>maxdepth\<close> and \<^verbatim>\<open>kBufferCapacity\<close> are only ever properties of the root.
\<close>

function depth_of :: "(nat \<Rightarrow> orch) \<Rightarrow> nat \<Rightarrow> int" where
  "depth_of os m =
     (case own_depth (os m) of
        Some d \<Rightarrow> d
      | None \<Rightarrow>
          (case proto (os m) of
             Some p \<Rightarrow> if p < m then depth_of os p else 0
           | None \<Rightarrow> 0))"
  by pat_completeness auto
termination
  by (relation "measure snd") auto

declare depth_of.simps [simp del]

definition set_depth :: "nat \<Rightarrow> int \<Rightarrow> state \<Rightarrow> state" where
  "set_depth m d \<sigma> = \<sigma>\<lparr>orchs := (orchs \<sigma>)(m := (orchs \<sigma> m)\<lparr>own_depth := Some d\<rparr>)\<rparr>"

definition next_tick :: "cmd \<Rightarrow> state \<Rightarrow> state" where
  "next_tick t \<sigma> = \<sigma>\<lparr>ticks := ticks \<sigma> @ [t]\<rparr>"

text \<open>\<^verbatim>\<open>M.delay(ms, action, input, success, failure)\<close>\<close>

definition delay :: "nat \<Rightarrow> int \<Rightarrow> action \<Rightarrow> val \<Rightarrow> action \<Rightarrow> action \<Rightarrow> state \<Rightarrow> state" where
  "delay m ms a i s f \<sigma> =
     (if 0 < ms then \<sigma>\<lparr>timers := timers \<sigma> @ [(ms, Call m a i s f)]\<rparr>
      else next_tick (Call m a i s f) \<sigma>)"

text \<open>
  \<^verbatim>\<open>ExM.call\<close>. \<open>ex\<close> runs the nested commands. The continuations are always given
  in the code modelled here, so \<^verbatim>\<open>success || M.drain\<close> is \<^verbatim>\<open>success\<close>. \<open>guarded\<close> is
  the \<^verbatim>\<open>try\<close> around the action: a thrown value goes to \<^verbatim>\<open>failure\<close> inside an IOError,
  and what \<^verbatim>\<open>failure\<close> throws is dropped.
\<close>

definition guarded ::
  "(cmd \<Rightarrow> state \<Rightarrow> outcome option) \<Rightarrow> nat \<Rightarrow> val \<Rightarrow> action \<Rightarrow> action \<Rightarrow> outcome option \<Rightarrow> outcome option" where
  "guarded ex m i s f r =
     (case r of
        None \<Rightarrow> None
      | Some (Done \<sigma>2) \<Rightarrow> Some (Done \<sigma>2)
      | Some (Threw e \<sigma>2) \<Rightarrow>
          (case ex (App m f (IOError m e i s f []) Drain Drain) \<sigma>2 of
             None \<Rightarrow> None
           | Some (Done \<sigma>3) \<Rightarrow> Some (Done \<sigma>3)
           | Some (Threw e2 \<sigma>3) \<Rightarrow> Some (Done \<sigma>3)))"

definition call ::
  "(cmd \<Rightarrow> state \<Rightarrow> outcome option) \<Rightarrow> nat \<Rightarrow> action \<Rightarrow> val \<Rightarrow> action \<Rightarrow> action \<Rightarrow> state \<Rightarrow> outcome option" where
  "call ex m a i s f \<sigma> =
     (let d = depth_of (orchs \<sigma>) m;
          \<sigma>1 = set_depth m (d + 1) \<sigma>
      in if d < maxdepth \<sigma> then guarded ex m i s f (ex (App m a i s f) \<sigma>1)
         else Some (Done (next_tick (Recall m a i s f) \<sigma>1)))"

text \<open>The task of the \<^verbatim>\<open>else\<close> branch of \<^verbatim>\<open>call\<close>, when it runs.\<close>

definition recall ::
  "(cmd \<Rightarrow> state \<Rightarrow> outcome option) \<Rightarrow> nat \<Rightarrow> action \<Rightarrow> val \<Rightarrow> action \<Rightarrow> action \<Rightarrow> state \<Rightarrow> outcome option" where
  "recall ex m a i s f \<sigma> = ex (Call m a i s f) (set_depth m (min 0 (maxdepth \<sigma> - 1)) \<sigma>)"

section \<open>Sequencing\<close>

text \<open>\<^verbatim>\<open>chain_iter(actions, i, success)\<close> and \<^verbatim>\<open>chain(actions)\<close>, on wrapped actions.\<close>

definition chain_iter :: "action list \<Rightarrow> nat \<Rightarrow> action \<Rightarrow> action" where
  "chain_iter as i s = (if length as \<le> i then s else ChainIter as i s)"

definition chain :: "action list \<Rightarrow> action" where
  "chain as = (case as of [] \<Rightarrow> Pass | [a] \<Rightarrow> a | _ \<Rightarrow> ChainD as)"

section \<open>Stateful combinators\<close>

text \<open>\<^verbatim>\<open>new IOPauseCondition()\<close>\<close>

definition new_pause :: "state \<Rightarrow> nat \<times> state" where
  "new_pause \<sigma> =
     (next_pause \<sigma>,
      \<sigma>\<lparr>pauses := (pauses \<sigma>)(next_pause \<sigma> := \<lparr>resume_callbacks = [], pause_props = []\<rparr>),
        next_pause := next_pause \<sigma> + 1\<rparr>)"

text \<open>
  \<^verbatim>\<open>pauseStream = pauseStream || new IOPauseCondition()\<close> in \<^verbatim>\<open>doit\<close> of the atomic
  action \<open>k\<close>: the pause condition, and the state in which the variable holds it.
\<close>

definition shared_pause :: "nat \<Rightarrow> state \<Rightarrow> nat \<times> state" where
  "shared_pause k \<sigma> =
     (case pauseStream (atomics \<sigma> k) of
        Some p \<Rightarrow> (p, \<sigma>)
      | None \<Rightarrow>
          (case new_pause \<sigma> of
             (p, \<sigma>') \<Rightarrow>
               (p, \<sigma>'\<lparr>atomics := (atomics \<sigma>')(k := (atomics \<sigma>' k)\<lparr>pauseStream := Some p\<rparr>)\<rparr>)))"

text \<open>
  The loop of \<^verbatim>\<open>flush\<close> in \<^verbatim>\<open>IO.chan\<close>: each waiter taken from the front is called with
  the item taken from the front, and the waiter hands the item to its continuation with
  \<^verbatim>\<open>M.delay(0, success, data, M.drain, failure)\<close>.
\<close>

fun flush_loop ::
  "(nat \<times> action \<times> action) list \<Rightarrow> val list \<Rightarrow> cmd list \<Rightarrow>
   (nat \<times> action \<times> action) list \<times> val list \<times> cmd list" where
  "flush_loop ((m, s, f) # ws) (x # xs) ts = flush_loop ws xs (ts @ [Call m s x Drain f])"
| "flush_loop ws xs ts = (ws, xs, ts)"

definition flush :: "nat \<Rightarrow> state \<Rightarrow> state" where
  "flush c \<sigma> =
     (case flush_loop (waiters (chans \<sigma> c)) (queue (chans \<sigma> c)) (ticks \<sigma>) of
        (ws, xs, ts) \<Rightarrow>
          \<sigma>\<lparr>chans := (chans \<sigma>)(c := \<lparr>waiters = ws, queue = xs\<rparr>), ticks := ts\<rparr>)"

text \<open>
  The \<^verbatim>\<open>forEach\<close> of \<^verbatim>\<open>fork_\<close>: every branch gets an orchestrator of its own and is
  started with \<^verbatim>\<open>Mi.delay(0, ...)\<close>.
\<close>

fun fork_branches :: "nat \<Rightarrow> val \<Rightarrow> nat \<Rightarrow> nat \<Rightarrow> action list \<Rightarrow> state \<Rightarrow> state" where
  "fork_branches m x fid i [] \<sigma> = \<sigma>"
| "fork_branches m x fid i (a # as) \<sigma> =
     (let mi = next_orch \<sigma>;
          \<sigma>1 = \<sigma>\<lparr>orchs := (orchs \<sigma>)(mi := \<lparr>proto = Some m, own_depth = None\<rparr>),
                 next_orch := mi + 1\<rparr>;
          \<sigma>2 = delay mi 0 (chain [a, MapTag i]) x (ForkJoin fid)
                 (SendKV ''index'' (Num (int i)) (ForkErrJoin fid)) \<sigma>1
      in fork_branches m x fid (i + 1) as \<sigma>2)"

section \<open>The action functions\<close>

text \<open>
  \<open>app ex m a i s f \<sigma>\<close> is the body of the action function \<open>a\<close> applied to
  \<^verbatim>\<open>(M, input, success, failure)\<close> in the state \<open>\<sigma>\<close>; \<open>ex\<close> runs what the body calls.
\<close>

fun app ::
  "(cmd \<Rightarrow> state \<Rightarrow> outcome option) \<Rightarrow> nat \<Rightarrow> action \<Rightarrow> val \<Rightarrow> action \<Rightarrow> action \<Rightarrow> state \<Rightarrow> outcome option" where
  "app ex m Drain i s f \<sigma> = Some (Done \<sigma>)"
| "app ex m Pass i s f \<sigma> = ex (Call m s i Drain f) \<sigma>"
| "app ex m Fail i s f \<sigma> = ex (Call m f i Drain Drain) \<sigma>"
| "app ex m NotAFunction i s f \<sigma> = Some (Threw type_error \<sigma>)"
| "app ex m (Seq a b) i s f \<sigma> = ex (Call m a i (Seq b s) f) \<sigma>"
| "app ex m (Branch a s' f') i s f \<sigma> = ex (Call m a i s' f') \<sigma>"
| "app ex m (ChainD as) i s f \<sigma> = ex (Call m (chain_iter as 0 s) i Drain f) \<sigma>"
| "app ex m (ChainIter as k s0) i s f \<sigma> =
     ex (Call m (if k < length as then as ! k else NotAFunction) i (chain_iter as (k + 1) s0) f) \<sigma>"
| "app ex m (Raise e) i s f \<sigma> = ex (Call m f (IOError m e i s f []) Drain Drain) \<sigma>"
| "app ex m Forgive i s f \<sigma> =
     (case get_prop \<sigma> ''input'' i of
        None \<Rightarrow> Some (Threw type_error \<sigma>)
      | Some v \<Rightarrow> ex (Call m s v Drain f) \<sigma>)"
| "app ex m (Catch onfail) i s f \<sigma> =
     (let restartCB = AutoBranch m (Catch onfail) s f;
          restartAct = Branch (Catch onfail) s f;
          withRestart = SendKV ''restart'' (FunV restartCB []) onfail
      in ex (Call m s i Drain (Branch withRestart restartAct f)) \<sigma>)"
| "app ex m (SendKV k v a) i s f \<sigma> =
     (case set_prop k v i \<sigma> of
        None \<Rightarrow> Some (Threw type_error \<sigma>)
      | Some (i', \<sigma>') \<Rightarrow> ex (Call m a i' s f) \<sigma>')"
| "app ex m (Supply v) i s f \<sigma> = ex (Call m s v Drain f) \<sigma>"
| "app ex m (MapTag k) i s f \<sigma> =
     ex (Call m s (Obj [(''index'', Num (int k)), (''value'', i)]) Drain f) \<sigma>"
| "app ex m (Probe tag) i s f \<sigma> =
     ex (Call m s i Drain f) (\<sigma>\<lparr>trace := trace \<sigma> @ [(tag, i)]\<rparr>)"
| "app ex m (Delay ms) i s f \<sigma> = Some (Done (delay m ms s i Drain f \<sigma>))"
| "app ex m Pause i s f \<sigma> =
     (case new_pause \<sigma> of (p, \<sigma>') \<Rightarrow> ex (Call m f (PauseRef p) Drain Drain) \<sigma>')"
| "app ex m (WrapFn (UResume v)) i s f \<sigma> =
     (case get_prop \<sigma> ''resume'' i of
        Some (FunV c ps) \<Rightarrow>
          caught (ex (Invoke c v) \<sigma>) (\<lambda>e. ex (Call m f e Drain Drain))
      | _ \<Rightarrow> ex (Call m f type_error Drain Drain) \<sigma>)"
| "app ex m (WrapAsync3 h) i s f \<sigma> = ex (Call m (WrapAsync3Inner h) i s f) \<sigma>"
| "app ex m (WrapAsync3Inner (GenHandler g m0 i0 s0 f0)) i s f \<sigma> =
     (case i of
        PauseRef p \<Rightarrow>
          if \<not> paused (gens \<sigma> g) then
            Some (Done (\<sigma>\<lparr>gens := (gens \<sigma>)(g := (gens \<sigma> g)\<lparr>paused := True\<rparr>),
                          pauses := (pauses \<sigma>)(p := (pauses \<sigma> p)\<lparr>resume_callbacks :=
                            resume_callbacks (pauses \<sigma> p) @ [GenResume g m0 i0 s0 f0]\<rparr>)\<rparr>))
          else Some (Done \<sigma>)
      | _ \<Rightarrow> ex (Invoke (AutoBranch m f Drain Drain) i) \<sigma>)"
| "app ex m (Fork as) i s f \<sigma> =
     (let fid = next_fork \<sigma>;
          \<sigma>1 = \<sigma>\<lparr>forks := (forks \<sigma>)(fid := \<lparr>fork_M = m, fork_success = s, fork_failure = f,
                   fork_length = length as, countUp = 0, errUp = 0, results = [],
                   named = []\<rparr>),
                 next_fork := fid + 1\<rparr>
      in Some (Done (fork_branches m i fid 0 as \<sigma>1)))"
| "app ex m (ForkJoin fid) i s f \<sigma> =
     (let fr = forks \<sigma> fid;
          fr1 = fr\<lparr>countUp := countUp fr + 1\<rparr>;
          \<sigma>1 = \<sigma>\<lparr>forks := (forks \<sigma>)(fid := fr1)\<rparr>
      in case get_prop \<sigma>1 ''index'' i of
           None \<Rightarrow> Some (Threw type_error \<sigma>1)
         | Some ix \<Rightarrow>
             (case get_prop \<sigma>1 ''value'' i of
                None \<Rightarrow> Some (Threw type_error \<sigma>1)
              | Some v \<Rightarrow>
                  (let fr2 = fr1\<lparr>results := array_set (results fr1) ix v,
                                 named := named_set (named fr1) ix v\<rparr>;
                       \<sigma>2 = \<sigma>1\<lparr>forks := (forks \<sigma>1)(fid := fr2)\<rparr>
                   in if errUp fr2 + countUp fr2 = fork_length fr2
                      then ex (Call (fork_M fr2) (fork_success fr2) (Arr (results fr2) (named fr2))
                                 Drain (fork_failure fr2)) \<sigma>2
                      else Some (Done \<sigma>2))))"
| "app ex m (ForkErrJoin fid) i s f \<sigma> =
     (let fr = forks \<sigma> fid;
          fr1 = fr\<lparr>errUp := errUp fr + 1\<rparr>;
          \<sigma>1 = \<sigma>\<lparr>forks := (forks \<sigma>)(fid := fr1)\<rparr>
      in case get_prop \<sigma>1 ''index'' i of
           None \<Rightarrow> Some (Threw type_error \<sigma>1)
         | Some ix \<Rightarrow>
             (case delete_prop ''index'' i \<sigma>1 of
                (err, \<sigma>1') \<Rightarrow>
                  (let fr1' = forks \<sigma>1' fid;
                       fr2 = fr1'\<lparr>results := array_set (results fr1') ix err,
                                  named := named_set (named fr1') ix err\<rparr>;
                       \<sigma>2 = \<sigma>1'\<lparr>forks := (forks \<sigma>1')(fid := fr2)\<rparr>
                   in if errUp fr2 + countUp fr2 = fork_length fr2
                      then (if countUp fr2 = 0
                            then ex (Call (fork_M fr2) (fork_failure fr2) err Drain Drain) \<sigma>2
                            else ex (Call (fork_M fr2) (fork_success fr2) (Arr (results fr2) (named fr2))
                                       Drain (fork_failure fr2)) \<sigma>2)
                      else Some (Done \<sigma>2))))"
| "app ex m (SyncNow c) i s f \<sigma> =
     Some (Done (\<sigma>\<lparr>syncs := (syncs \<sigma>)(c := (syncs \<sigma> c)\<lparr>followon := Some (m, i, s, f)\<rparr>)\<rparr>))"
| "app ex m (SyncLater c) i s f \<sigma> =
     then_do
       (case followon (syncs \<sigma> c) of
          None \<Rightarrow> Some (Done \<sigma>)
        | Some (m0, i0, s0, f0) \<Rightarrow>
            (let n = countDown (syncs \<sigma> c) - 1;
                 \<sigma>1 = \<sigma>\<lparr>syncs := (syncs \<sigma>)(c := (syncs \<sigma> c)\<lparr>countDown := n\<rparr>)\<rparr>
             in if n \<le> 0
                then ex (Call m0 s0 i0 Drain f0)
                       (\<sigma>1\<lparr>syncs := (syncs \<sigma>1)(c := (syncs \<sigma>1 c)\<lparr>followon := None\<rparr>)\<rparr>)
                else Some (Done \<sigma>1)))
       (ex (Call m s i Drain f))"
| "app ex m (ChanSend c) i s f \<sigma> =
     (let \<sigma>1 = \<sigma>\<lparr>chans := (chans \<sigma>)(c := (chans \<sigma> c)\<lparr>queue := queue (chans \<sigma> c) @ [i]\<rparr>)\<rparr>
      in ex (Call m s i Drain f) (flush c \<sigma>1))"
| "app ex m (ChanRecv c) i s f \<sigma> =
     (let \<sigma>1 = flush c \<sigma>
      in case queue (chans \<sigma>1 c) of
           [] \<Rightarrow> Some (Done (\<sigma>1\<lparr>chans := (chans \<sigma>1)(c := (chans \<sigma>1 c)\<lparr>waiters :=
                                 waiters (chans \<sigma>1 c) @ [(m, s, f)]\<rparr>)\<rparr>))
         | x # xs \<Rightarrow>
             ex (Call m s x Drain f)
               (\<sigma>1\<lparr>chans := (chans \<sigma>1)(c := (chans \<sigma>1 c)\<lparr>queue := xs\<rparr>)\<rparr>))"
| "app ex m (AtomicDoit k a) i s f \<sigma> =
     (let cell = atomics \<sigma> k
      in if \<not> busy cell then
           ex (Call m (Seq a (AtomicDone k a)) i s f)
             (\<sigma>\<lparr>atomics := (atomics \<sigma>)(k := cell\<lparr>busy := True\<rparr>)\<rparr>)
         else if kBufferCapacity \<sigma> \<noteq> 0 \<and> int (length (arr cell)) + 1 \<ge> kBufferCapacity \<sigma> then
           (let \<sigma>1 = \<sigma>\<lparr>atomics := (atomics \<sigma>)(k := cell\<lparr>arr := arr cell @ [(i, s, f)]\<rparr>)\<rparr>
            in case shared_pause k \<sigma>1 of
                 (p, \<sigma>2) \<Rightarrow> ex (Call m f (PauseRef p) Drain Drain) \<sigma>2)
         else Some (Done (\<sigma>\<lparr>atomics := (atomics \<sigma>)(k := cell\<lparr>arr := arr cell @ [(i, s, f)]\<rparr>)\<rparr>)))"
| "app ex m (AtomicDone k a) i s f \<sigma> =
     then_do
       (case arr (atomics \<sigma> k) of
          (x0, x1, x2) # rest \<Rightarrow>
            then_do
              (ex (Call m (Seq a (AtomicDone k a)) x0 x1 x2)
                 (\<sigma>\<lparr>atomics := (atomics \<sigma>)(k := (atomics \<sigma> k)\<lparr>arr := rest\<rparr>)\<rparr>))
              (\<lambda>\<sigma>1. case pauseStream (atomics \<sigma>1 k) of
                       Some p \<Rightarrow>
                         if int (length (arr (atomics \<sigma>1 k))) < kBufferCapacity \<sigma>1
                         then ex (PauseResume p)
                                (\<sigma>1\<lparr>atomics := (atomics \<sigma>1)(k := (atomics \<sigma>1 k)\<lparr>pauseStream := None\<rparr>)\<rparr>)
                         else Some (Done \<sigma>1)
                     | None \<Rightarrow> Some (Done \<sigma>1))
        | [] \<Rightarrow> Some (Done (\<sigma>\<lparr>atomics := (atomics \<sigma>)(k := (atomics \<sigma> k)\<lparr>busy := False\<rparr>)\<rparr>)))
       (ex (Call m s i Drain f))"
| "app ex m (Gen g) i s f \<sigma> =
     ex (Call m (Seq (Catch (WrapAsync3 (GenHandler g m i s f))) (GenOne g)) i s f) \<sigma>"
| "app ex m (GenOne g) i s f \<sigma> =
     (let \<sigma>0 = (if genCount (gens \<sigma> g) = 0
                then \<sigma>\<lparr>gens := (gens \<sigma>)(g := (gens \<sigma> g)\<lparr>genCount := kBufferCapacity \<sigma>\<rparr>)\<rparr>
                else \<sigma>)
      in if \<not> paused (gens \<sigma>0 g) then
           (let c = gens \<sigma>0 g;
                v = producer c (produced c);
                \<sigma>1 = \<sigma>0\<lparr>gens := (gens \<sigma>0)(g := c\<lparr>produced := produced c + 1,
                                                      genCount := genCount c - 1\<rparr>)\<rparr>
            in if v \<noteq> Undefined then
                 then_do (ex (Call m s v Drain f) \<sigma>1)
                   (\<lambda>\<sigma>2. if \<not> paused (gens \<sigma>2 g) then
                            (if genCount (gens \<sigma>2 g) = 0
                             then Some (Done (delay m (delay_ms (gens \<sigma>2 g)) (GenOne g) i s f \<sigma>2))
                             else ex (App m (GenOne g) i s f) \<sigma>2)
                          else Some (Done \<sigma>2))
               else Some (Done \<sigma>1))
         else Some (Done \<sigma>0))"
| "app ex m (InterruptWrap h old) i s f \<sigma> =
     ex (Call m old i s f) (\<sigma>\<lparr>trace := trace \<sigma> @ [(h, Undefined)]\<rparr>)"
| "app ex m (InterruptAct k) i s f \<sigma> = ex (Call m (interrupts \<sigma> k) i s f) \<sigma>"

text \<open>Calling a one-argument callback, a registered zero-argument callback.\<close>

fun invoke :: "(cmd \<Rightarrow> state \<Rightarrow> outcome option) \<Rightarrow> cb \<Rightarrow> val \<Rightarrow> state \<Rightarrow> outcome option" where
  "invoke ex (AutoBranch m a s f) v \<sigma> = ex (Call m a v s f) \<sigma>"
| "invoke ex (PauseResumeM p) v \<sigma> = ex (PauseResume p) \<sigma>"

fun run_thunk :: "(cmd \<Rightarrow> state \<Rightarrow> outcome option) \<Rightarrow> thunk \<Rightarrow> state \<Rightarrow> outcome option" where
  "run_thunk ex (GenResume g m i s f) \<sigma> =
     ex (Call m (Gen g) i s f) (\<sigma>\<lparr>gens := (gens \<sigma>)(g := (gens \<sigma> g)\<lparr>paused := False\<rparr>)\<rparr>)"

text \<open>
  \<^verbatim>\<open>IOPauseCondition.prototype.resume\<close>: while there are callbacks, the last one is
  taken off and called.
\<close>

definition pause_resume :: "(cmd \<Rightarrow> state \<Rightarrow> outcome option) \<Rightarrow> nat \<Rightarrow> state \<Rightarrow> outcome option" where
  "pause_resume ex p \<sigma> =
     (let cs = resume_callbacks (pauses \<sigma> p)
      in if cs = [] then Some (Done \<sigma>)
         else then_do
                (ex (RunThunk (last cs))
                   (\<sigma>\<lparr>pauses := (pauses \<sigma>)(p := (pauses \<sigma> p)\<lparr>resume_callbacks := butlast cs\<rparr>)\<rparr>))
                (ex (PauseResume p)))"

section \<open>Running\<close>

fun step :: "(cmd \<Rightarrow> state \<Rightarrow> outcome option) \<Rightarrow> cmd \<Rightarrow> state \<Rightarrow> outcome option" where
  "step ex (Call m a i s f) \<sigma> = call ex m a i s f \<sigma>"
| "step ex (App m a i s f) \<sigma> = app ex m a i s f \<sigma>"
| "step ex (Recall m a i s f) \<sigma> = recall ex m a i s f \<sigma>"
| "step ex (Invoke c v) \<sigma> = invoke ex c v \<sigma>"
| "step ex (RunThunk t) \<sigma> = run_thunk ex t \<sigma>"
| "step ex (PauseResume p) \<sigma> = pause_resume ex p \<sigma>"

text \<open>
  \<open>exec n c \<sigma>\<close> runs the command \<open>c\<close> with at most \<open>n\<close> nested calls; \<open>None\<close> when
  that is not enough.
\<close>

primrec exec :: "nat \<Rightarrow> cmd \<Rightarrow> state \<Rightarrow> outcome option" where
  "exec 0 c \<sigma> = None"
| "exec (Suc n) c \<sigma> = step (exec n) c \<sigma>"

text \<open>One turn of the event loop: the first task queued by \<^verbatim>\<open>nextTick\<close> runs.\<close>

definition run_tick :: "nat \<Rightarrow> state \<Rightarrow> outcome option" where
  "run_tick n \<sigma> =
     (case ticks \<sigma> of
        [] \<Rightarrow> Some (Done \<sigma>)
      | t # ts \<Rightarrow> exec n t (\<sigma>\<lparr>ticks := ts\<rparr>))"

section \<open>The default orchestrator and auxiliary notions\<close>

text \<open>
  \<^verbatim>\<open>ExM\<close> as the file creates it (\<^verbatim>\<open>maxdepth: 50, depth: 0, kBufferCapacity: 8\<close>), with
  nothing scheduled and every stateful combinator in the state its maker leaves it in.
  The file declares no \<^verbatim>\<open>cont\<close>, and no \<^verbatim>\<open>interrupt\<close> variable exists yet.
\<close>

definition ExM :: state where
  "ExM =
     \<lparr>orchs = (\<lambda>_. \<lparr>proto = None, own_depth = Some 0\<rparr>), next_orch = 1,
      maxdepth = 50, kBufferCapacity = 8, ticks = [], timers = [],
      pauses = (\<lambda>_. \<lparr>resume_callbacks = [], pause_props = []\<rparr>), next_pause = 0,
      atomics = (\<lambda>_. \<lparr>arr = [], busy = False, pauseStream = None\<rparr>),
      chans = (\<lambda>_. \<lparr>waiters = [], queue = []\<rparr>),
      syncs = (\<lambda>_. \<lparr>countDown = 1, followon = None\<rparr>),
      gens = (\<lambda>_. \<lparr>paused = False, genCount = 0, delay_ms = 0,
                     producer = (\<lambda>_. Undefined), produced = 0\<rparr>),
      forks = (\<lambda>_. \<lparr>fork_M = 0, fork_success = Drain, fork_failure = Drain,
                      fork_length = 0, countUp = 0, errUp = 0, results = [], named = []\<rparr>),
      next_fork = 0, interrupts = (\<lambda>_. Drain), host_cont = None, trace = []\<rparr>"

fun state_of :: "outcome \<Rightarrow> state" where
  "state_of (Done \<sigma>) = \<sigma>"
| "state_of (Threw e \<sigma>) = \<sigma>"

text \<open>The depth counters that exist are not negative, and \<^verbatim>\<open>maxdepth\<close> is at least one.\<close>

definition depths_ok :: "state \<Rightarrow> bool" where
  "depths_ok \<sigma> \<longleftrightarrow> 1 \<le> maxdepth \<sigma> \<and> (\<forall>m d. own_depth (orchs \<sigma> m) = Some d \<longrightarrow> 0 \<le> d)"

text \<open>
  \<open>budget \<sigma> m k\<close>: the next \<open>k\<close> calls on \<open>m\<close> are below \<^verbatim>\<open>maxdepth\<close>;
  \<open>bump m k \<sigma>\<close>: the state after \<open>k\<close> calls have counted.
\<close>

definition budget :: "state \<Rightarrow> nat \<Rightarrow> nat \<Rightarrow> bool" where
  "budget \<sigma> m k \<longleftrightarrow> depth_of (orchs \<sigma>) m + int k \<le> maxdepth \<sigma>"

definition bump :: "nat \<Rightarrow> nat \<Rightarrow> state \<Rightarrow> state" where
  "bump m k \<sigma> = set_depth m (depth_of (orchs \<sigma>) m + int k) \<sigma>"

text \<open>
  The failure continuation that \<^verbatim>\<open>catch_\<close> installs for the sequence after it:
  \<^verbatim>\<open>branch(withRestart, restartAct, traceback)\<close>.
\<close>

definition catch_failure :: "nat \<Rightarrow> action \<Rightarrow> action \<Rightarrow> action \<Rightarrow> action" where
  "catch_failure m onfail start traceback =
     Branch (SendKV ''restart'' (FunV (AutoBranch m (Catch onfail) start traceback) []) onfail)
       (Branch (Catch onfail) start traceback) traceback"

definition no_throw :: "outcome option \<Rightarrow> bool" where
  "no_throw r \<longleftrightarrow> (case r of Some (Threw e \<sigma>) \<Rightarrow> False | _ \<Rightarrow> True)"

definition keeps :: "(cmd \<Rightarrow> state \<Rightarrow> outcome option) \<Rightarrow> bool" where
  "keeps ex \<longleftrightarrow> (\<forall>c \<sigma> r. depths_ok \<sigma> \<longrightarrow> ex c \<sigma> = Some r \<longrightarrow> depths_ok (state_of r))"

text \<open>
  \<open>run_ticks n k\<close> lets the event loop take \<open>k\<close> turns; \<open>run_from n k c\<close> runs the
  command \<open>c\<close> and then \<open>k\<close> turns of the event loop.
\<close>

fun run_ticks :: "nat \<Rightarrow> nat \<Rightarrow> state \<Rightarrow> state option" where
  "run_ticks n 0 \<sigma> = Some \<sigma>"
| "run_ticks n (Suc k) \<sigma> =
     (case run_tick n \<sigma> of
        None \<Rightarrow> None
      | Some r \<Rightarrow> run_ticks n k (state_of r))"

definition run_from :: "nat \<Rightarrow> nat \<Rightarrow> cmd \<Rightarrow> state \<Rightarrow> state option" where
  "run_from n k c \<sigma> =
     (case exec n c \<sigma> of None \<Rightarrow> None | Some r \<Rightarrow> run_ticks n k (state_of r))"

text \<open>
  \<^verbatim>\<open>oninterrupt(handler)\<close> in \<^verbatim>\<open>IO.interruptible\<close>: the variable \<^verbatim>\<open>interrupt\<close> becomes a
  wrapper that calls the handler and then the former value. A handler is a zero-argument
  procedure of the user; here it is one that records its name in the trace. \<open>install\<close>
  registers handlers one after the other, as a builder does that calls \<^verbatim>\<open>oninterrupt\<close>
  for each of them.
\<close>

definition oninterrupt :: "nat \<Rightarrow> string \<Rightarrow> state \<Rightarrow> state" where
  "oninterrupt k h \<sigma> = \<sigma>\<lparr>interrupts := (interrupts \<sigma>)(k := InterruptWrap h (interrupts \<sigma> k))\<rparr>"

definition install :: "nat \<Rightarrow> string list \<Rightarrow> state \<Rightarrow> state" where
  "install k hs \<sigma> = fold (oninterrupt k) hs \<sigma>"

text \<open>
  \<^verbatim>\<open>IO.interruptible(builder)\<close>, for a builder that registers the handlers \<open>hs\<close>; \<open>k\<close> is the
  variable \<^verbatim>\<open>interrupt\<close> of this call. The first statement, \<^verbatim>\<open>var interrupt = cont\<close>,
  evaluates the identifier \<^verbatim>\<open>cont\<close>: that throws a ReferenceError when nothing binds
  it, before the builder is called.
\<close>

definition interruptible :: "nat \<Rightarrow> string list \<Rightarrow> state \<Rightarrow> outcome" where
  "interruptible k hs \<sigma> =
     (case host_cont \<sigma> of
        None \<Rightarrow> Threw reference_error \<sigma>
      | Some c \<Rightarrow> Done (install k hs (\<sigma>\<lparr>interrupts := (interrupts \<sigma>)(k := c)\<rparr>)))"

text \<open>
  \<^verbatim>\<open>IO.sync(N)\<close> starts with \<^verbatim>\<open>countDown = N || 1\<close> and no \<^verbatim>\<open>followon\<close>.
\<close>

definition sync_init :: "int \<Rightarrow> sync_cell" where
  "sync_init N = \<lparr>countDown = (if N = 0 then 1 else N), followon = None\<rparr>"

text \<open>
  \<open>laters n c m xs\<close>: the action \<^verbatim>\<open>later\<close> of the pair \<open>c\<close> is invoked once for every
  input in \<open>xs\<close>, one invocation after the other, each with continuations that do nothing.
\<close>

fun laters :: "nat \<Rightarrow> nat \<Rightarrow> nat \<Rightarrow> val list \<Rightarrow> state \<Rightarrow> outcome option" where
  "laters n c m [] \<sigma> = Some (Done \<sigma>)"
| "laters n c m (x # xs) \<sigma> =
     then_do (exec n (App m (SyncLater c) x Drain Drain) \<sigma>) (laters n c m xs)"

text \<open>
  How often the continuation \<^verbatim>\<open>IO.probe\<close> with the name \<open>t\<close> has been called: the
  calls that have run have left an entry in the trace, the calls that the orchestrator
  deferred are tasks of the event loop.
\<close>

fun deferred_probe :: "string \<Rightarrow> cmd \<Rightarrow> bool" where
  "deferred_probe t (Recall m a x s f) = (a = Probe t)"
| "deferred_probe t (Call m a x s f) = (a = Probe t)"
| "deferred_probe t c = False"

definition called :: "string \<Rightarrow> state \<Rightarrow> nat" where
  "called t \<sigma> = length (filter (\<lambda>e. fst e = t) (trace \<sigma>)) + length (filter (deferred_probe t) (ticks \<sigma>))"

text \<open>
  Operations on a channel \<open>c\<close>: \<^verbatim>\<open>send\<close> invoked on an input, \<^verbatim>\<open>recv\<close> invoked with a
  success continuation that records what it receives under the name \<open>t\<close>, and a turn of
  the event loop. \<open>chan_run\<close> runs a list of them in order.
\<close>

datatype chan_op = Send nat val | Recv nat | Turn

fun chan_step :: "nat \<Rightarrow> nat \<Rightarrow> string \<Rightarrow> chan_op \<Rightarrow> state \<Rightarrow> outcome option" where
  "chan_step n c t (Send m v) \<sigma> = exec n (App m (ChanSend c) v Drain Drain) \<sigma>"
| "chan_step n c t (Recv m) \<sigma> = exec n (App m (ChanRecv c) Undefined (Probe t) Drain) \<sigma>"
| "chan_step n c t Turn \<sigma> = run_tick n \<sigma>"

fun chan_run :: "nat \<Rightarrow> nat \<Rightarrow> string \<Rightarrow> chan_op list \<Rightarrow> state \<Rightarrow> outcome option" where
  "chan_run n c t [] \<sigma> = Some (Done \<sigma>)"
| "chan_run n c t (op # ops) \<sigma> = then_do (chan_step n c t op \<sigma>) (chan_run n c t ops)"

fun sent :: "chan_op list \<Rightarrow> val list" where
  "sent [] = []"
| "sent (Send m v # ops) = v # sent ops"
| "sent (op # ops) = sent ops"

text \<open>
  The values delivered to the receivers named \<open>t\<close>: those that a receiver has recorded,
  and those that are on their way to one in a task of the event loop (\<^verbatim>\<open>M.delay(0, ...)\<close>
  of a waiter, or a call that the orchestrator deferred).
\<close>

fun pending_value :: "string \<Rightarrow> cmd \<Rightarrow> val list" where
  "pending_value t (Call m a x s f) = (if a = Probe t then [x] else [])"
| "pending_value t (Recall m a x s f) = (if a = Probe t then [x] else [])"
| "pending_value t c = []"

definition delivered :: "string \<Rightarrow> state \<Rightarrow> val multiset" where
  "delivered t \<sigma> =
     mset (map snd (filter (\<lambda>e. fst e = t) (trace \<sigma>)))
     + mset (concat (map (pending_value t) (ticks \<sigma>)))"

text \<open>The tasks and the waiters that the operations above leave behind.\<close>

fun task_ok :: "string \<Rightarrow> cmd \<Rightarrow> bool" where
  "task_ok t (Call m a x s f) \<longleftrightarrow> (a = Probe t \<or> a = Drain) \<and> s = Drain"
| "task_ok t (Recall m a x s f) \<longleftrightarrow> (a = Probe t \<or> a = Drain) \<and> s = Drain"
| "task_ok t c \<longleftrightarrow> False"

definition chan_inv :: "nat \<Rightarrow> string \<Rightarrow> val multiset \<Rightarrow> state \<Rightarrow> bool" where
  "chan_inv c t S \<sigma> \<longleftrightarrow>
     list_all (task_ok t) (ticks \<sigma>)
     \<and> list_all (\<lambda>w. fst (snd w) = Probe t) (waiters (chans \<sigma> c))
     \<and> delivered t \<sigma> + mset (queue (chans \<sigma> c)) = S"

text \<open>
  \<open>calls n m a s f xs\<close>: the action \<open>a\<close> is called once for each input in \<open>xs\<close>, one call
  after the other, each with the continuations \<open>s\<close> and \<open>f\<close>.
\<close>

fun calls :: "nat \<Rightarrow> nat \<Rightarrow> action \<Rightarrow> action \<Rightarrow> action \<Rightarrow> val list \<Rightarrow> state \<Rightarrow> outcome option" where
  "calls n m a s f [] \<sigma> = Some (Done \<sigma>)"
| "calls n m a s f (x # xs) \<sigma> = then_do (exec n (Call m a x s f) \<sigma>) (calls n m a s f xs)"

text \<open>\<^verbatim>\<open>arr.push([input, succ, fail])\<close> in \<^verbatim>\<open>doit\<close> of the atomic action \<open>k\<close>.\<close>

definition enqueued :: "nat \<Rightarrow> val \<Rightarrow> action \<Rightarrow> action \<Rightarrow> state \<Rightarrow> state" where
  "enqueued k x s f \<sigma> =
     \<sigma>\<lparr>atomics := (atomics \<sigma>)(k := (atomics \<sigma> k)\<lparr>arr := arr (atomics \<sigma> k) @ [(x, s, f)]\<rparr>)\<rparr>"

text \<open>
  \<open>burst p pos c\<close>: how many values the producer \<open>p\<close> yields from its call number
  \<open>pos\<close> on before it returns \<^verbatim>\<open>undefined\<close>, counted up to \<open>c\<close>.
\<close>

fun burst :: "(nat \<Rightarrow> val) \<Rightarrow> nat \<Rightarrow> nat \<Rightarrow> nat" where
  "burst p pos 0 = 0"
| "burst p pos (Suc c) = (if p pos = Undefined then 0 else Suc (burst p (Suc pos) c))"

text \<open>
  The values handed to the recorder \<^verbatim>\<open>IO.probe\<close> named \<open>t\<close>: those that it has recorded
  in the trace, and those that are the input of a task of the event loop that starts with
  it (a call that the orchestrator deferred). \<^verbatim>\<open>seq(a, b)\<close> starts with \<open>a\<close>.
\<close>

fun records :: "string \<Rightarrow> action \<Rightarrow> bool" where
  "records t (Probe u) = (u = t)"
| "records t (Seq a b) = records t a"
| "records t a = False"

fun handing :: "string \<Rightarrow> cmd \<Rightarrow> val list" where
  "handing t (Call m a x s f) = (if records t a then [x] else [])"
| "handing t (Recall m a x s f) = (if records t a then [x] else [])"
| "handing t c = []"

definition handed :: "string \<Rightarrow> state \<Rightarrow> val multiset" where
  "handed t \<sigma> =
     mset (map snd (filter (\<lambda>e. fst e = t) (trace \<sigma>)))
     + mset (concat (map (handing t) (ticks \<sigma>)))"

text \<open>
  The generator \<open>g\<close> at the start of a run of \<^verbatim>\<open>genOne_\<close>. \<open>allowance\<close>: how many values the
  run may hand on before \<^verbatim>\<open>genCount\<close> is back at 0, which is \<^verbatim>\<open>genCount\<close>, or
  \<^verbatim>\<open>M.kBufferCapacity\<close> when \<^verbatim>\<open>genCount\<close> is 0. \<open>gen_ready\<close>: the capacity is at least one,
  the generator is not paused, and its counter is between 0 and the capacity.
\<close>

definition allowance :: "state \<Rightarrow> nat \<Rightarrow> nat" where
  "allowance \<sigma> g =
     (if genCount (gens \<sigma> g) = 0 then nat (kBufferCapacity \<sigma>) else nat (genCount (gens \<sigma> g)))"

definition gen_ready :: "state \<Rightarrow> nat \<Rightarrow> bool" where
  "gen_ready \<sigma> g \<longleftrightarrow>
     1 \<le> kBufferCapacity \<sigma> \<and> \<not> paused (gens \<sigma> g)
     \<and> 0 \<le> genCount (gens \<sigma> g) \<and> genCount (gens \<sigma> g) \<le> kBufferCapacity \<sigma>"

text \<open>
  \<open>deferred_genOne\<close>: the task that was queued last is \<^verbatim>\<open>genOne_\<close> with the arguments of
  the run, as \<^verbatim>\<open>M.delay(delay_ms, genOne_, input, success, failure)\<close> queues it: with
  \<^verbatim>\<open>setTimeout\<close> when \<^verbatim>\<open>delay_ms\<close> is positive, with \<^verbatim>\<open>nextTick\<close> otherwise.
\<close>

definition deferred_genOne :: "nat \<Rightarrow> nat \<Rightarrow> val \<Rightarrow> action \<Rightarrow> action \<Rightarrow> int \<Rightarrow> state \<Rightarrow> bool" where
  "deferred_genOne m g x s f ms \<sigma> \<longleftrightarrow>
     (if 0 < ms then timers \<sigma> \<noteq> [] \<and> last (timers \<sigma>) = (ms, Call m (GenOne g) x s f)
      else ticks \<sigma> \<noteq> [] \<and> last (ticks \<sigma>) = Call m (GenOne g) x s f)"

text \<open>
  What one run of \<^verbatim>\<open>genOne_\<close> from the state \<open>\<sigma>\<close> has done in the state \<open>\<sigma>'\<close>, \<open>b\<close> being
  the number of values that the producer yields before it returns \<^verbatim>\<open>undefined\<close>, counted
  up to the allowance: \<open>b\<close> is at most the capacity; the recorder \<open>t\<close> has been handed
  exactly these \<open>b\<close> values; the producer has been called once more when it ended the
  run; the generator is ready for a run again; and when the run has used up its
  allowance, the counter is 0 and \<^verbatim>\<open>genOne_\<close> is deferred.
\<close>

definition burst_ok :: "string \<Rightarrow> nat \<Rightarrow> nat \<Rightarrow> val \<Rightarrow> action \<Rightarrow> action \<Rightarrow> state \<Rightarrow> state \<Rightarrow> bool" where
  "burst_ok t g m x s f \<sigma> \<sigma>' \<longleftrightarrow>
     (let c = gens \<sigma> g; A = allowance \<sigma> g; b = burst (producer c) (produced c) A
      in int b \<le> kBufferCapacity \<sigma>
         \<and> handed t \<sigma>' = handed t \<sigma> + mset (map (producer c) [produced c..<produced c + b])
         \<and> produced (gens \<sigma>' g) = produced c + b + (if b < A then 1 else 0)
         \<and> producer (gens \<sigma>' g) = producer c \<and> delay_ms (gens \<sigma>' g) = delay_ms c
         \<and> kBufferCapacity \<sigma>' = kBufferCapacity \<sigma> \<and> gen_ready \<sigma>' g
         \<and> (b = A \<longrightarrow> genCount (gens \<sigma>' g) = 0 \<and> deferred_genOne m g x s f (delay_ms c) \<sigma>'))"

text \<open>
  The way from \<^verbatim>\<open>gen_\<close> to \<^verbatim>\<open>genOne_\<close>. \<^verbatim>\<open>gen_\<close> makes the catcher, whose handler is the
  three-argument function that pauses the generator, and calls
  \<^verbatim>\<open>seq(catcher, genOne_)\<close>; \<^verbatim>\<open>seq\<close> calls the catcher with \<^verbatim>\<open>seq(genOne_, success)\<close> to
  follow; \<^verbatim>\<open>catch_\<close> calls that with its failure continuation; and that calls \<^verbatim>\<open>genOne_\<close>
  with \<^verbatim>\<open>seq(success, M.drain)\<close> to follow. \<open>gen_calls\<close> lists the five calls through the
  orchestrator, each as the action with its two continuations; the input is that of
  \<^verbatim>\<open>gen_\<close> throughout.
\<close>

definition gen_handler :: "nat \<Rightarrow> nat \<Rightarrow> val \<Rightarrow> action \<Rightarrow> action \<Rightarrow> action" where
  "gen_handler g m x S F = WrapAsync3 (GenHandler g m x S F)"

definition gen_failure :: "nat \<Rightarrow> nat \<Rightarrow> val \<Rightarrow> action \<Rightarrow> action \<Rightarrow> action" where
  "gen_failure g m x S F = catch_failure m (gen_handler g m x S F) (Seq (GenOne g) S) F"

definition gen_calls :: "nat \<Rightarrow> nat \<Rightarrow> val \<Rightarrow> action \<Rightarrow> action \<Rightarrow> (action \<times> action \<times> action) list" where
  "gen_calls g m x S F =
     [(Gen g, S, F),
      (Seq (Catch (gen_handler g m x S F)) (GenOne g), S, F),
      (Catch (gen_handler g m x S F), Seq (GenOne g) S, F),
      (Seq (GenOne g) S, Drain, gen_failure g m x S F),
      (GenOne g, Seq S Drain, gen_failure g m x S F)]"

text \<open>
  One of these calls was deferred by the orchestrator: its task is queued, and the
  generator and what the recorder has been handed are as before.
\<close>

definition postponed :: "string \<Rightarrow> nat \<Rightarrow> nat \<Rightarrow> val \<Rightarrow> action \<Rightarrow> action \<Rightarrow> state \<Rightarrow> state \<Rightarrow> bool" where
  "postponed t g m x S F \<sigma> \<sigma>' \<longleftrightarrow>
     (\<exists>c. c \<in> set (map (\<lambda>(a, s, f). Recall m a x s f) (gen_calls g m x S F))
          \<and> ticks \<sigma>' = ticks \<sigma> @ [c])
     \<and> timers \<sigma>' = timers \<sigma> \<and> gens \<sigma>' = gens \<sigma> \<and> kBufferCapacity \<sigma>' = kBufferCapacity \<sigma>
     \<and> handed t \<sigma>' = handed t \<sigma>"

text \<open>
  What a call that has \<open>j\<close> calls to go until \<^verbatim>\<open>genOne_\<close> runs has done: the run of
  \<^verbatim>\<open>genOne_\<close> when the orchestrator has the depth for the \<open>j\<close> calls, a deferred call otherwise.
\<close>

definition run_ok :: "string \<Rightarrow> nat \<Rightarrow> nat \<Rightarrow> val \<Rightarrow> action \<Rightarrow> action \<Rightarrow> nat \<Rightarrow> state \<Rightarrow> state \<Rightarrow> bool" where
  "run_ok t g m x S F j \<sigma> \<sigma>' \<longleftrightarrow>
     (if budget \<sigma> m j
      then burst_ok t g m x (Seq S Drain) (gen_failure g m x S F) \<sigma> \<sigma>'
      else postponed t g m x S F \<sigma> \<sigma>')"

text \<open>
  What the branches of a fork report. Branch \<open>i\<close> succeeds with a value: \<^verbatim>\<open>join\<close> is called
  with \<^verbatim>\<open>{index: i, value: output}\<close>, made by the \<^verbatim>\<open>IO.map\<close> that \<^verbatim>\<open>fork_\<close> appends to
  the branch. Branch \<open>i\<close> fails with an IOError: \<^verbatim>\<open>errjoin\<close> is called with the error, on
  which \<^verbatim>\<open>sendKV({index: i}, errjoin)\<close> has set \<^verbatim>\<open>index\<close>. Branch \<open>i\<close> runs on the
  orchestrator \<open>mb + i\<close>, where \<open>mb\<close> is the first of the orchestrators that \<^verbatim>\<open>fork_\<close> made.
\<close>

datatype report = Succeeded nat val | Failed nat val

fun index_of :: "report \<Rightarrow> nat" where
  "index_of (Succeeded i v) = i"
| "index_of (Failed i e) = i"

fun is_success :: "report \<Rightarrow> bool" where
  "is_success (Succeeded i v) = True"
| "is_success (Failed i e) = False"

fun is_ioerror :: "val \<Rightarrow> bool" where
  "is_ioerror (IOError m e x s f ps) = True"
| "is_ioerror v = False"

fun well_formed :: "report \<Rightarrow> bool" where
  "well_formed (Succeeded i v) = True"
| "well_formed (Failed i e) = is_ioerror e"

fun with_index :: "nat \<Rightarrow> val \<Rightarrow> val" where
  "with_index i (IOError m e x s f ps) = IOError m e x s f (put_prop ''index'' (Num (int i)) ps)"
| "with_index i v = v"

text \<open>The error as it is stored and passed on: \<^verbatim>\<open>errjoin\<close> deletes \<^verbatim>\<open>index\<close> from it.\<close>

fun reported :: "val \<Rightarrow> val" where
  "reported (IOError m e x s f ps) = IOError m e x s f (del_prop ''index'' ps)"
| "reported v = v"

fun result_of :: "report \<Rightarrow> val" where
  "result_of (Succeeded i v) = v"
| "result_of (Failed i e) = reported e"

fun report_cmd :: "nat \<Rightarrow> nat \<Rightarrow> report \<Rightarrow> cmd" where
  "report_cmd fid mb (Succeeded i v) =
     App (mb + i) (ForkJoin fid) (Obj [(''index'', Num (int i)), (''value'', v)]) Drain Drain"
| "report_cmd fid mb (Failed i e) = App (mb + i) (ForkErrJoin fid) (with_index i e) Drain Drain"

fun reports_run :: "nat \<Rightarrow> nat \<Rightarrow> nat \<Rightarrow> report list \<Rightarrow> state \<Rightarrow> outcome option" where
  "reports_run n fid mb [] \<sigma> = Some (Done \<sigma>)"
| "reports_run n fid mb (r # rs) \<sigma> =
     then_do (exec n (report_cmd fid mb r) \<sigma>) (reports_run n fid mb rs)"

text \<open>The variables of \<^verbatim>\<open>fork_\<close> after a report, and after a list of reports.\<close>

definition absorb :: "fork_frame \<Rightarrow> report \<Rightarrow> fork_frame" where
  "absorb fr r =
     fr\<lparr>countUp := countUp fr + (if is_success r then 1 else 0),
        errUp := errUp fr + (if is_success r then 0 else 1),
        results := array_set (results fr) (Num (int (index_of r))) (result_of r)\<rparr>"

definition absorbed :: "nat \<Rightarrow> report list \<Rightarrow> state \<Rightarrow> state" where
  "absorbed fid rs \<sigma> = \<sigma>\<lparr>forks := (forks \<sigma>)(fid := foldl absorb (forks \<sigma> fid) rs)\<rparr>"

text \<open>The result of branch \<open>i\<close> according to the reports.\<close>

definition result_at :: "report list \<Rightarrow> nat \<Rightarrow> val" where
  "result_at rs i = (case find (\<lambda>r. index_of r = i) rs of Some r \<Rightarrow> result_of r | None \<Rightarrow> Undefined)"

text \<open>
  The tasks that \<^verbatim>\<open>fork_\<close> hands to \<^verbatim>\<open>Mi.delay(0, ...)\<close>, one for each branch, and the
  continuations that the action of branch \<open>i\<close> is called with when its task runs.
\<close>

fun branch_tasks :: "nat \<Rightarrow> val \<Rightarrow> nat \<Rightarrow> nat \<Rightarrow> action list \<Rightarrow> cmd list" where
  "branch_tasks mi x fid i [] = []"
| "branch_tasks mi x fid i (a # as) =
     Call mi (chain [a, MapTag i]) x (ForkJoin fid) (SendKV ''index'' (Num (int i)) (ForkErrJoin fid))
     # branch_tasks (mi + 1) x fid (i + 1) as"

definition branch_success :: "action \<Rightarrow> nat \<Rightarrow> nat \<Rightarrow> action" where
  "branch_success a i fid = ChainIter [a, MapTag i] 1 (ForkJoin fid)"

definition branch_failure :: "nat \<Rightarrow> nat \<Rightarrow> action" where
  "branch_failure i fid = SendKV ''index'' (Num (int i)) (ForkErrJoin fid)"

section \<open>The depth counter\<close>

lemma depth_of_nonneg:
  "(\<forall>m d. own_depth (os m) = Some d \<longrightarrow> 0 \<le> d) \<Longrightarrow> 0 \<le> depth_of os m"
proof (induction os m rule: depth_of.induct)
  case (1 os m)
  show ?case
    using 1 by (subst depth_of.simps) (auto split: option.splits)
qed

lemma depth_of_set_depth [simp]: "depth_of (orchs (set_depth m d \<sigma>)) m = d"
  by (subst depth_of.simps) (simp add: set_depth_def)

lemma maxdepth_set_depth [simp]: "maxdepth (set_depth m d \<sigma>) = maxdepth \<sigma>"
  by (simp add: set_depth_def)

lemma set_depth_set_depth [simp]: "set_depth m d (set_depth m d' \<sigma>) = set_depth m d \<sigma>"
  by (simp add: set_depth_def)

lemma depths_ok_set_depth: "depths_ok \<sigma> \<Longrightarrow> 0 \<le> d \<Longrightarrow> depths_ok (set_depth m d \<sigma>)"
  by (auto simp: depths_ok_def set_depth_def)

lemma depths_ok_next_tick [simp]: "depths_ok (next_tick t \<sigma>) = depths_ok \<sigma>"
  by (simp add: depths_ok_def next_tick_def)

lemma depths_ok_delay [simp]: "depths_ok (delay m ms a i s f \<sigma>) = depths_ok \<sigma>"
  by (simp add: depths_ok_def delay_def next_tick_def)

lemma depths_ok_flush [simp]: "depths_ok (flush c \<sigma>) = depths_ok \<sigma>"
  by (simp add: depths_ok_def flush_def split: prod.splits)

lemma depths_ok_fork_branches: "depths_ok \<sigma> \<Longrightarrow> depths_ok (fork_branches m x fid i as \<sigma>)"
proof (induction as arbitrary: i \<sigma>)
  case Nil
  then show ?case by simp
next
  case (Cons a as)
  have "depths_ok (\<sigma>\<lparr>orchs := (orchs \<sigma>)(next_orch \<sigma> := \<lparr>proto = Some m, own_depth = None\<rparr>),
                 next_orch := next_orch \<sigma> + 1\<rparr>)"
    using Cons.prems by (auto simp: depths_ok_def)
  then show ?case
    by (simp add: Let_def Cons.IH)
qed

lemma depths_ok_upd [simp]:
  "depths_ok (\<sigma>\<lparr>trace := t\<rparr>) = depths_ok \<sigma>"
  "depths_ok (\<sigma>\<lparr>gens := g\<rparr>) = depths_ok \<sigma>"
  "depths_ok (\<sigma>\<lparr>pauses := p\<rparr>) = depths_ok \<sigma>"
  "depths_ok (\<sigma>\<lparr>next_pause := np\<rparr>) = depths_ok \<sigma>"
  "depths_ok (\<sigma>\<lparr>atomics := a\<rparr>) = depths_ok \<sigma>"
  "depths_ok (\<sigma>\<lparr>chans := c\<rparr>) = depths_ok \<sigma>"
  "depths_ok (\<sigma>\<lparr>syncs := s\<rparr>) = depths_ok \<sigma>"
  "depths_ok (\<sigma>\<lparr>forks := f\<rparr>) = depths_ok \<sigma>"
  "depths_ok (\<sigma>\<lparr>next_fork := nf\<rparr>) = depths_ok \<sigma>"
  "depths_ok (\<sigma>\<lparr>ticks := tk\<rparr>) = depths_ok \<sigma>"
  "depths_ok (\<sigma>\<lparr>timers := tm\<rparr>) = depths_ok \<sigma>"
  by (simp_all add: depths_ok_def)

lemma depths_ok_set_prop: "set_prop k v x \<sigma> = Some (x', \<sigma>') \<Longrightarrow> depths_ok \<sigma>' = depths_ok \<sigma>"
  by (cases x) (auto simp: depths_ok_def)

lemma depths_ok_delete_prop: "delete_prop k x \<sigma> = (x', \<sigma>') \<Longrightarrow> depths_ok \<sigma>' = depths_ok \<sigma>"
  by (cases x) (auto simp: depths_ok_def)

lemma depths_ok_new_pause: "new_pause \<sigma> = (p, \<sigma>') \<Longrightarrow> depths_ok \<sigma>' = depths_ok \<sigma>"
  by (auto simp: new_pause_def depths_ok_def)

lemma depths_ok_shared_pause: "shared_pause k \<sigma> = (p, \<sigma>') \<Longrightarrow> depths_ok \<sigma>' = depths_ok \<sigma>"
  by (auto simp: shared_pause_def new_pause_def depths_ok_def split: option.splits)

lemma keeps_ex: "keeps ex \<Longrightarrow> ex c \<sigma> = Some r \<Longrightarrow> depths_ok \<sigma> \<Longrightarrow> depths_ok (state_of r)"
  by (auto simp: keeps_def)

lemma then_do_keeps:
  "then_do r k = Some r' \<Longrightarrow> (\<And>x. r = Some x \<Longrightarrow> depths_ok (state_of x)) \<Longrightarrow>
   (\<And>\<sigma> y. depths_ok \<sigma> \<Longrightarrow> k \<sigma> = Some y \<Longrightarrow> depths_ok (state_of y)) \<Longrightarrow> depths_ok (state_of r')"
  by (auto simp: then_do_def split: option.splits outcome.splits)

lemma guarded_keeps:
  assumes k: "keeps ex" and r: "guarded ex m i s f r0 = Some r"
    and r0: "\<And>x. r0 = Some x \<Longrightarrow> depths_ok (state_of x)"
  shows "depths_ok (state_of r)"
  using r r0 by (auto simp: guarded_def split: option.splits outcome.splits dest!: keeps_ex[OF k])

lemma call_keeps:
  assumes k: "keeps ex" and ok: "depths_ok \<sigma>" and r: "call ex m a i s f \<sigma> = Some r"
  shows "depths_ok (state_of r)"
proof -
  have d: "0 \<le> depth_of (orchs \<sigma>) m"
    using ok by (auto simp: depths_ok_def intro: depth_of_nonneg)
  then have ok1: "depths_ok (set_depth m (depth_of (orchs \<sigma>) m + 1) \<sigma>)"
    using ok by (auto intro: depths_ok_set_depth)
  show ?thesis
  proof (cases "depth_of (orchs \<sigma>) m < maxdepth \<sigma>")
    case True
    then have "guarded ex m i s f (ex (App m a i s f) (set_depth m (depth_of (orchs \<sigma>) m + 1) \<sigma>)) = Some r"
      using r by (simp add: call_def Let_def)
    then show ?thesis
      by (rule guarded_keeps[OF k]) (use ok1 in \<open>auto dest: keeps_ex[OF k]\<close>)
  next
    case False
    then show ?thesis
      using r ok1 by (auto simp: call_def Let_def)
  qed
qed

lemma app_keeps:
  assumes k: "keeps ex" and ok: "depths_ok \<sigma>" and r: "app ex m a i s f \<sigma> = Some r"
  shows "depths_ok (state_of r)"
proof (cases a)
  case (WrapFn u)
  then show ?thesis
    using r ok
    by (cases u)
      (auto simp: Let_def caught_def split: option.splits val.splits outcome.splits
        dest!: keeps_ex[OF k])
next
  case (WrapAsync3Inner h)
  then show ?thesis
    using r ok
    by (cases h)
      (auto simp: Let_def split: option.splits val.splits outcome.splits if_splits
        dest!: keeps_ex[OF k])
next
  case (SyncLater c)
  then show ?thesis
    using r ok
    by (auto simp: Let_def elim!: then_do_keeps split: option.splits if_splits
        dest!: keeps_ex[OF k])
next
  case (AtomicDone c b)
  then show ?thesis
    using r ok
    by (auto simp: Let_def elim!: then_do_keeps split: option.splits if_splits list.splits
        dest!: keeps_ex[OF k])
next
  case (GenOne g)
  then show ?thesis
    using r ok
    by (auto simp: Let_def elim!: then_do_keeps split: option.splits if_splits list.splits
        dest!: keeps_ex[OF k])
qed (use r ok in \<open>auto simp: Let_def depths_ok_fork_branches depths_ok_set_prop
      depths_ok_delete_prop depths_ok_new_pause depths_ok_shared_pause
      split: option.splits prod.splits if_splits list.splits dest: keeps_ex[OF k]\<close>)

lemma step_keeps:
  assumes k: "keeps ex" and ok: "depths_ok \<sigma>" and r: "step ex c \<sigma> = Some r"
  shows "depths_ok (state_of r)"
proof (cases c)
  case (Call m a i s f)
  then show ?thesis using r call_keeps[OF k ok] by simp
next
  case (App m a i s f)
  then show ?thesis using r app_keeps[OF k ok] by simp
next
  case (Recall m a i s f)
  have "depths_ok (set_depth m (min 0 (maxdepth \<sigma> - 1)) \<sigma>)"
    using ok by (intro depths_ok_set_depth) (auto simp: depths_ok_def)
  then show ?thesis
    using r Recall by (auto simp: recall_def dest: keeps_ex[OF k])
next
  case (Invoke c v)
  then show ?thesis
    using r ok by (cases c) (auto dest: keeps_ex[OF k])
next
  case (RunThunk t)
  then show ?thesis
    using r ok by (cases t) (auto dest!: keeps_ex[OF k])
next
  case (PauseResume p)
  then show ?thesis
    using r ok
    by (auto simp: pause_resume_def Let_def elim!: then_do_keeps split: if_splits
        dest!: keeps_ex[OF k])
qed

lemma exec_keeps: "keeps (exec n)"
proof (induction n)
  case 0
  show ?case by (simp add: keeps_def)
next
  case (Suc n)
  show ?case
    unfolding keeps_def using step_keeps[OF Suc] by auto
qed

section \<open>Claims about the orchestrator\<close>

text \<open>
  C3 (as amended). The depth counter of every orchestrator is non-negative, before and
  after every command, when \<^verbatim>\<open>maxdepth\<close> is at least one. \<^verbatim>\<open>call\<close> counts every call:
  while the counter read is below \<^verbatim>\<open>maxdepth\<close> the action is applied, under the
  \<^verbatim>\<open>try\<close>, with a counter that is at most \<^verbatim>\<open>maxdepth\<close>; once the counter read has
  reached \<^verbatim>\<open>maxdepth\<close> the call is handed to \<^verbatim>\<open>nextTick\<close> and the counter, incremented
  all the same, is above \<^verbatim>\<open>maxdepth\<close>. The deferred task sets the counter to
  \<^verbatim>\<open>Math.min(0, maxdepth - 1)\<close>, which is 0, and calls again.
\<close>

theorem call_depth_discipline:
  assumes "depths_ok \<sigma>"
  shows "0 \<le> depth_of (orchs \<sigma>) m
    \<and> (\<forall>r. exec n c \<sigma> = Some r \<longrightarrow> depths_ok (state_of r))
    \<and> (depth_of (orchs \<sigma>) m < maxdepth \<sigma> \<longrightarrow>
         exec (Suc n) (Call m a i s f) \<sigma>
           = guarded (exec n) m i s f (exec n (App m a i s f) (bump m 1 \<sigma>))
         \<and> depth_of (orchs (bump m 1 \<sigma>)) m \<le> maxdepth \<sigma>)
    \<and> (maxdepth \<sigma> \<le> depth_of (orchs \<sigma>) m \<longrightarrow>
         exec (Suc n) (Call m a i s f) \<sigma> = Some (Done (next_tick (Recall m a i s f) (bump m 1 \<sigma>)))
         \<and> maxdepth \<sigma> < depth_of (orchs (bump m 1 \<sigma>)) m)
    \<and> exec (Suc n) (Recall m a i s f) \<sigma> = exec n (Call m a i s f) (set_depth m 0 \<sigma>)"
proof -
  have nonneg: "0 \<le> depth_of (orchs \<sigma>) m"
    using assms by (auto simp: depths_ok_def intro: depth_of_nonneg)
  have inv: "\<forall>r. exec n c \<sigma> = Some r \<longrightarrow> depths_ok (state_of r)"
    using exec_keeps[of n] assms by (auto simp: keeps_def)
  have md: "min 0 (maxdepth \<sigma> - 1) = 0"
    using assms by (simp add: depths_ok_def)
  show ?thesis
    using nonneg inv md by (simp add: call_def recall_def bump_def Let_def)
qed

theorem call_depth_discipline_witness:
  "depths_ok ExM
   \<and> depth_of (orchs ExM) 0 < maxdepth ExM
   \<and> exec 3 (Call 0 Pass (Num 1) Drain Drain) ExM
       = guarded (exec 2) 0 (Num 1) Drain Drain
           (exec 2 (App 0 Pass (Num 1) Drain Drain) (bump 0 1 ExM))
   \<and> depths_ok (set_depth 0 50 ExM)
   \<and> maxdepth (set_depth 0 50 ExM) \<le> depth_of (orchs (set_depth 0 50 ExM)) 0
   \<and> exec 3 (Call 0 Pass (Num 1) Drain Drain) (set_depth 0 50 ExM)
       = Some (Done (next_tick (Recall 0 Pass (Num 1) Drain Drain)
                      (bump 0 1 (set_depth 0 50 ExM))))
   \<and> depths_ok (state_of (Done (next_tick (Recall 0 Pass (Num 1) Drain Drain)
                      (bump 0 1 (set_depth 0 50 ExM)))))"
proof -
  have ok: "depths_ok ExM"
    by (simp add: depths_ok_def ExM_def)
  have ok50: "depths_ok (set_depth 0 50 ExM)"
    using ok by (rule depths_ok_set_depth) simp
  have d0: "depth_of (orchs ExM) 0 = 0"
    by (subst depth_of.simps) (simp add: ExM_def)
  have m: "maxdepth ExM = 50"
    by (simp add: ExM_def)
  have e3: "exec 3 = exec (Suc 2)"
    by (simp add: numeral_3_eq_3)
  note a = call_depth_discipline [OF ok, of 0 2 "Call 0 Pass (Num 1) Drain Drain" Pass "Num 1" Drain Drain]
  note b = call_depth_discipline [OF ok50, of 0 2 "Call 0 Pass (Num 1) Drain Drain" Pass "Num 1" Drain Drain]
  have b1: "exec 3 (Call 0 Pass (Num 1) Drain Drain) (set_depth 0 50 ExM)
       = Some (Done (next_tick (Recall 0 Pass (Num 1) Drain Drain)
                      (bump 0 1 (set_depth 0 50 ExM))))"
    using b m unfolding e3 by simp
  have b2: "depths_ok (state_of (Done (next_tick (Recall 0 Pass (Num 1) Drain Drain)
                      (bump 0 1 (set_depth 0 50 ExM)))))"
    using call_depth_discipline [OF ok50, of 0 3 "Call 0 Pass (Num 1) Drain Drain"] b1 by blast
  have a1: "exec 3 (Call 0 Pass (Num 1) Drain Drain) ExM
       = guarded (exec 2) 0 (Num 1) Drain Drain
           (exec 2 (App 0 Pass (Num 1) Drain Drain) (bump 0 1 ExM))"
    using a d0 m unfolding e3 by simp
  show ?thesis
    using ok ok50 d0 m a1 b1 b2 by simp
qed

text \<open>
  C3 as stated fails: after fifty calls of a chain the next call finds the counter at
  \<^verbatim>\<open>maxdepth\<close> and leaves it at 51; and the deferred task of a call re-enters with the
  counter reset to 0, so that it is 1 when the action has been applied.
\<close>

theorem call_depth_counterexample:
  "(case exec 300 (Call 0 (chain (replicate 30 Pass)) (Num 1) Drain Drain) ExM of
      Some (Done \<sigma>) \<Rightarrow> maxdepth \<sigma> = 50 \<and> depth_of (orchs \<sigma>) 0 = 51 \<and> length (ticks \<sigma>) = 1
    | _ \<Rightarrow> False)
   \<and> (case exec 300 (Recall 0 Drain (Num 1) Drain Drain) (set_depth 0 51 ExM) of
      Some (Done \<sigma>) \<Rightarrow> depth_of (orchs \<sigma>) 0 = 1
    | _ \<Rightarrow> False)"
  by code_simp

section \<open>Running calls within the depth budget\<close>

lemma no_throw_simps [simp]:
  "no_throw None" "no_throw (Some (Done \<sigma>))" "\<not> no_throw (Some (Threw e \<sigma>))"
  by (simp_all add: no_throw_def)

lemma guarded_no_throw: "no_throw r \<Longrightarrow> guarded ex m i s f r = r"
  by (auto simp: guarded_def no_throw_def split: option.splits outcome.splits)

lemma caught_no_throw: "no_throw r \<Longrightarrow> caught r k = r"
  by (auto simp: caught_def no_throw_def split: option.splits outcome.splits)

lemma no_throw_guarded [simp]: "no_throw (guarded ex m i s f r)"
  by (auto simp: guarded_def no_throw_def split: option.splits outcome.splits)

lemma no_throw_call [simp]: "no_throw (call ex m a i s f \<sigma>)"
  by (simp add: call_def Let_def)

lemma no_throw_exec_Call [simp]: "no_throw (exec n (Call m a i s f) \<sigma>)"
  by (cases n) simp_all

lemma no_throw_exec_Recall [simp]: "no_throw (exec n (Recall m a i s f) \<sigma>)"
  by (cases n) (simp_all add: recall_def)

lemma then_do_simps [simp]:
  "then_do None k = None"
  "then_do (Some (Done \<sigma>)) k = k \<sigma>"
  "then_do (Some (Threw e \<sigma>)) k = Some (Threw e \<sigma>)"
  by (simp_all add: then_do_def)

lemma depth_of_upd_same [simp]: "depth_of (os(m := ob\<lparr>own_depth := Some d\<rparr>)) m = d"
  by (subst depth_of.simps) simp

lemma bump_bump [simp]: "bump m j (bump m k \<sigma>) = bump m (k + j) \<sigma>"
  by (simp add: bump_def add.assoc)

lemma depth_of_bump [simp]: "depth_of (orchs (bump m k \<sigma>)) m = depth_of (orchs \<sigma>) m + int k"
  by (simp add: bump_def)

lemma maxdepth_bump [simp]: "maxdepth (bump m k \<sigma>) = maxdepth \<sigma>"
  by (simp add: bump_def)

lemma call_within:
  "depth_of (orchs \<sigma>) m < maxdepth \<sigma> \<Longrightarrow>
   call ex m a i s f \<sigma> = guarded ex m i s f (ex (App m a i s f) (bump m 1 \<sigma>))"
  by (simp add: call_def Let_def bump_def)

lemma call_beyond:
  "maxdepth \<sigma> \<le> depth_of (orchs \<sigma>) m \<Longrightarrow>
   call ex m a i s f \<sigma> = Some (Done (next_tick (Recall m a i s f) (bump m 1 \<sigma>)))"
  by (simp add: call_def Let_def bump_def)

lemma get_prop_trace [simp]: "get_prop (\<sigma>\<lparr>trace := t\<rparr>) k x = get_prop \<sigma> k x"
  by (cases x) simp_all

lemma get_prop_bump [simp]: "get_prop (bump m j \<sigma>) k x = get_prop \<sigma> k x"
  by (cases x) (simp_all add: bump_def set_depth_def)

lemma app_Catch:
  "app ex m (Catch onfail) i s f \<sigma> = ex (Call m s i Drain (catch_failure m onfail s f)) \<sigma>"
  by (simp add: catch_failure_def)

lemmas run_simps = call_within guarded_no_throw caught_no_throw budget_def put_prop_def
  numeral_eq_Suc

section \<open>Claims about the error model\<close>

lemma budget_ExM [simp]: "budget ExM 0 k \<longleftrightarrow> k \<le> 50"
  by (simp add: budget_def ExM_def depth_of.simps)

text \<open>
  C1 (as amended). \<^verbatim>\<open>catch_\<close> runs the sequence after it with the failure continuation
  \<open>catch_failure\<close>. When that continuation receives an IOError, the handler is called
  with the IOError as input, the property \<^verbatim>\<open>restart\<close> added to it; the handler's failure
  continuation is the outer failure continuation; the handler's success continuation is
  \<^verbatim>\<open>branch(catch_, start, traceback)\<close>: called with a value, it re-enters the catch, which
  runs the sequence after the catch on that value with the handler installed again.
\<close>

theorem catch_handler_continuations:
  assumes "budget \<sigma> m 3"
  shows "exec (n + 2) (Call m (Catch h) x start tb) \<sigma>
           = exec n (Call m start x Drain (catch_failure m h start tb)) (bump m 1 \<sigma>)
       \<and> exec (n + 4) (Call m (catch_failure m h start tb) (IOError m' e x' s' f' ps) sx fx) \<sigma>
           = exec n (Call m h
                 (IOError m' e x' s' f'
                    (put_prop ''restart'' (FunV (AutoBranch m (Catch h) start tb) []) ps))
                 (Branch (Catch h) start tb) tb) (bump m 2 \<sigma>)
       \<and> exec (n + 4) (Call m (Branch (Catch h) start tb) v sx fx) \<sigma>
           = exec n (Call m start v Drain (catch_failure m h start tb)) (bump m 2 \<sigma>)"
  using assms
  by (simp add: run_simps catch_failure_def Let_def)

theorem catch_handler_continuations_witness:
  "budget ExM 0 3
   \<and> exec (1 + 4) (Call 0 (catch_failure 0 (Supply (Num 7)) (Raise (Str ''e'')) (Probe ''outer''))
         (IOError 0 (Str ''e'') (Num 1) Drain Drain []) Drain Drain) ExM
       = exec 1 (Call 0 (Supply (Num 7))
           (IOError 0 (Str ''e'') (Num 1) Drain Drain
              (put_prop ''restart''
                 (FunV (AutoBranch 0 (Catch (Supply (Num 7))) (Raise (Str ''e'')) (Probe ''outer'')) []) []))
           (Branch (Catch (Supply (Num 7))) (Raise (Str ''e'')) (Probe ''outer'')) (Probe ''outer''))
           (bump 0 2 ExM)"
proof -
  have b: "budget ExM 0 3"
    by simp
  show ?thesis
    using b catch_handler_continuations [OF b, where n = 1 and h = "Supply (Num 7)"
        and start = "Raise (Str ''e'')" and tb = "Probe ''outer''" and m' = 0
        and e = "Str ''e''" and x' = "Num 1" and s' = Drain and f' = Drain and ps = "[]"
        and sx = Drain and fx = Drain]
    by blast
qed

text \<open>
  C1 as stated fails. A handler that succeeds with 7 does not let the run go on past the
  failing sequence: the sequence after the catch is entered again with 7, fails again
  and is entered again, until the call that reaches \<^verbatim>\<open>maxdepth\<close> is deferred; neither the
  continuation after the chain nor the outer failure continuation is reached.
\<close>

theorem catch_handler_counterexample:
  "(case exec 300
           (Call 0 (chain [Catch (Supply (Num 7)), Probe ''region'', Raise (Str ''e'')])
              (Num 1) (Probe ''after'') (Probe ''outer''))
           ExM of
      Some (Done \<sigma>) \<Rightarrow>
        trace \<sigma> = (''region'', Num 1) # replicate 5 (''region'', Num 7) \<and> length (ticks \<sigma>) = 1
    | _ \<Rightarrow> False)"
  by code_simp

text \<open>
  C4 (as amended). Under \<^verbatim>\<open>catch(forgive)\<close> a raise leads back to the catch: \<^verbatim>\<open>forgive\<close>
  passes the input captured at the raise site to its success continuation, which
  re-enters \<^verbatim>\<open>catch_\<close> with the sequence after the catch. For
  \<^verbatim>\<open>chain([catch(forgive), raise(e)])\<close> that sequence is the raise, so the run comes back
  to the call it started from, with the same input, seven calls deeper.
\<close>

theorem forgive_restarts:
  assumes "budget \<sigma> m 7"
  shows "exec (n + 10) (Call m (Raise e) x S (catch_failure m Forgive start F)) \<sigma>
           = exec n (Call m (Catch Forgive) x start F) (bump m 5 \<sigma>)
       \<and> exec (n + 14) (Call m (Catch Forgive) x (ChainIter [Catch Forgive, Raise e] 1 S) F) \<sigma>
           = exec n (Call m (Catch Forgive) x (ChainIter [Catch Forgive, Raise e] 1 S) F) (bump m 7 \<sigma>)"
  using assms
  by (simp add: run_simps catch_failure_def chain_iter_def)

theorem forgive_restarts_witness:
  "budget ExM 0 7
   \<and> exec (1 + 14) (Call 0 (Catch Forgive) (Num 1)
          (ChainIter [Catch Forgive, Raise (Str ''e'')] 1 (Probe ''after'')) (Probe ''outer'')) ExM
       = exec 1 (Call 0 (Catch Forgive) (Num 1)
          (ChainIter [Catch Forgive, Raise (Str ''e'')] 1 (Probe ''after'')) (Probe ''outer''))
          (bump 0 7 ExM)"
proof -
  have b: "budget ExM 0 7"
    by simp
  show ?thesis
    using b forgive_restarts [OF b, where n = 1 and e = "Str ''e''" and x = "Num 1"
        and S = "Probe ''after''" and F = "Probe ''outer''"]
    by blast
qed

text \<open>
  C4 as stated fails: \<^verbatim>\<open>pass\<close> hands the input to the continuation at once, while
  \<^verbatim>\<open>chain([catch(forgive), raise(e)])\<close> has not reached the continuation after the
  synchronous run and three more turns of the event loop, and still has a call pending.
\<close>

theorem forgive_law_counterexample:
  "(case run_from 300 3 (Call 0 Pass (Num 1) (Probe ''after'') (Probe ''outer'')) ExM of
      Some \<sigma> \<Rightarrow> trace \<sigma> = [(''after'', Num 1)] \<and> ticks \<sigma> = []
    | None \<Rightarrow> False)
   \<and> (case run_from 300 3
             (Call 0 (chain [Catch Forgive, Raise (Str ''e'')]) (Num 1) (Probe ''after'') (Probe ''outer''))
             ExM of
      Some \<sigma> \<Rightarrow> trace \<sigma> = [] \<and> length (ticks \<sigma>) = 1
    | None \<Rightarrow> False)"
  by code_simp

text \<open>
  C6. At a raise site whose failure continuation is the one installed by a catch with
  the handler \<^verbatim>\<open>function (err) { err.resume(v); }\<close>, \<^verbatim>\<open>raise(e)\<close> ends in the same call as
  \<^verbatim>\<open>supply(v)\<close>: the success continuation of the site is called with exactly \<open>v\<close>, with
  the same continuations; \<^verbatim>\<open>raise(e)\<close> has counted three more calls on the way. The
  last conjunct is the whole chain \<^verbatim>\<open>[catch(handler), raise(e)]\<close>.
\<close>

theorem resume_equivalence:
  assumes "budget \<sigma> m 8"
  shows "exec (n + 9) (Call m (Raise e) x S (catch_failure m (WrapFn (UResume v)) start F)) \<sigma>
           = exec (n + 2) (Call m (Supply v) x S (catch_failure m (WrapFn (UResume v)) start F))
               (bump m 3 \<sigma>)
       \<and> exec (n + 2) (Call m (Supply v) x S (catch_failure m (WrapFn (UResume v)) start F))
               (bump m 3 \<sigma>)
           = exec n (Call m S v Drain (catch_failure m (WrapFn (UResume v)) start F)) (bump m 4 \<sigma>)
       \<and> exec (n + 17) (Call m (chain [Catch (WrapFn (UResume v)), Raise e]) x S F) \<sigma>
           = exec n (Call m S v Drain
               (catch_failure m (WrapFn (UResume v))
                  (ChainIter [Catch (WrapFn (UResume v)), Raise e] 1 S) F)) (bump m 8 \<sigma>)"
  using assms
  by (simp add: run_simps catch_failure_def chain_def chain_iter_def)

theorem resume_equivalence_witness:
  "budget ExM 0 8
   \<and> exec (4 + 17)
        (Call 0 (chain [Catch (WrapFn (UResume (Str ''y''))), Raise (Str ''boom'')])
           (Str ''x'') (Probe ''probe'') Drain) ExM
       = exec 4 (Call 0 (Probe ''probe'') (Str ''y'') Drain
               (catch_failure 0 (WrapFn (UResume (Str ''y'')))
                  (ChainIter [Catch (WrapFn (UResume (Str ''y''))), Raise (Str ''boom'')] 1
                     (Probe ''probe'')) Drain)) (bump 0 8 ExM)
   \<and> map_option (\<lambda>r. trace (state_of r))
        (exec 4 (Call 0 (Probe ''probe'') (Str ''y'') Drain
               (catch_failure 0 (WrapFn (UResume (Str ''y'')))
                  (ChainIter [Catch (WrapFn (UResume (Str ''y''))), Raise (Str ''boom'')] 1
                     (Probe ''probe'')) Drain)) (bump 0 8 ExM))
       = Some [(''probe'', Str ''y'')]"
proof -
  have b: "budget ExM 0 8"
    by simp
  have t: "map_option (\<lambda>r. trace (state_of r))
        (exec 4 (Call 0 (Probe ''probe'') (Str ''y'') Drain
               (catch_failure 0 (WrapFn (UResume (Str ''y'')))
                  (ChainIter [Catch (WrapFn (UResume (Str ''y''))), Raise (Str ''boom'')] 1
                     (Probe ''probe'')) Drain)) (bump 0 8 ExM))
       = Some [(''probe'', Str ''y'')]"
    by code_simp
  show ?thesis
    using b t resume_equivalence [OF b, where n = 4 and v = "Str ''y''" and e = "Str ''boom''"
        and x = "Str ''x''" and S = "Probe ''probe''" and F = Drain]
    by blast
qed

section \<open>Fields that counting a call leaves alone\<close>

lemma own_depth_bump [simp]: "own_depth (orchs (bump m k \<sigma>) m) = Some (depth_of (orchs \<sigma>) m + int k)"
  by (simp add: bump_def set_depth_def)

lemma bump_fields [simp]:
  "trace (bump m k \<sigma>) = trace \<sigma>"
  "ticks (bump m k \<sigma>) = ticks \<sigma>"
  "timers (bump m k \<sigma>) = timers \<sigma>"
  "interrupts (bump m k \<sigma>) = interrupts \<sigma>"
  "gens (bump m k \<sigma>) = gens \<sigma>"
  "atomics (bump m k \<sigma>) = atomics \<sigma>"
  "chans (bump m k \<sigma>) = chans \<sigma>"
  "syncs (bump m k \<sigma>) = syncs \<sigma>"
  "forks (bump m k \<sigma>) = forks \<sigma>"
  "pauses (bump m k \<sigma>) = pauses \<sigma>"
  "next_pause (bump m k \<sigma>) = next_pause \<sigma>"
  "next_fork (bump m k \<sigma>) = next_fork \<sigma>"
  "next_orch (bump m k \<sigma>) = next_orch \<sigma>"
  "kBufferCapacity (bump m k \<sigma>) = kBufferCapacity \<sigma>"
  by (simp_all add: bump_def set_depth_def)

lemma bump_0: "own_depth (orchs \<sigma> m) = Some d \<Longrightarrow> bump m 0 \<sigma> = \<sigma>"
proof -
  assume a: "own_depth (orchs \<sigma> m) = Some d"
  then have "depth_of (orchs \<sigma>) m = d"
    by (subst depth_of.simps) simp
  moreover have "(orchs \<sigma> m)\<lparr>own_depth := Some d\<rparr> = orchs \<sigma> m"
    using a by (cases "orchs \<sigma> m") simp
  ultimately show ?thesis
    by (simp add: bump_def set_depth_def)
qed

section \<open>Claims about interruption\<close>

text \<open>
  C7. In the state that the file sets up, no call of \<^verbatim>\<open>IO.interruptible\<close> returns: whatever
  handlers the builder would register, the call throws a ReferenceError at
  \<^verbatim>\<open>var interrupt = cont\<close>, and leaves the state as it was. No handler is registered, and
  there is no action whose \<^verbatim>\<open>interrupt\<close> could be invoked.
\<close>

theorem interruptible_throws: "interruptible k hs ExM = Threw reference_error ExM"
  by (simp add: interruptible_def ExM_def)

section \<open>Calls of continuations that do nothing or record their input\<close>

lemma call_Drain:
  "exec (n + 2) (Call m Drain x s f) \<sigma>
     = Some (Done (if depth_of (orchs \<sigma>) m < maxdepth \<sigma> then bump m 1 \<sigma>
                   else next_tick (Recall m Drain x s f) (bump m 1 \<sigma>)))"
  by (simp add: call_def Let_def guarded_def bump_def)

lemma call_Probe:
  "exec (n + 4) (Call m (Probe t) x Drain f) \<sigma>
     = Some (Done
        (if depth_of (orchs \<sigma>) m < maxdepth \<sigma> then
           (if depth_of (orchs \<sigma>) m + 1 < maxdepth \<sigma>
            then (bump m 2 \<sigma>)\<lparr>trace := trace \<sigma> @ [(t, x)]\<rparr>
            else next_tick (Recall m Drain x Drain f) ((bump m 2 \<sigma>)\<lparr>trace := trace \<sigma> @ [(t, x)]\<rparr>))
         else next_tick (Recall m (Probe t) x Drain f) (bump m 1 \<sigma>)))"
  by (simp add: call_def Let_def guarded_def bump_def set_depth_def next_tick_def numeral_eq_Suc add.commute)

lemma next_tick_fields [simp]:
  "trace (next_tick c \<sigma>) = trace \<sigma>"
  "ticks (next_tick c \<sigma>) = ticks \<sigma> @ [c]"
  "syncs (next_tick c \<sigma>) = syncs \<sigma>"
  "chans (next_tick c \<sigma>) = chans \<sigma>"
  "orchs (next_tick c \<sigma>) = orchs \<sigma>"
  "maxdepth (next_tick c \<sigma>) = maxdepth \<sigma>"
  by (simp_all add: next_tick_def)

lemma called_call_Drain:
  "\<exists>\<sigma>'. exec (n + 2) (Call m Drain x s f) \<sigma> = Some (Done \<sigma>') \<and> syncs \<sigma>' = syncs \<sigma>
     \<and> called t \<sigma>' = called t \<sigma>"
  unfolding call_Drain by (simp add: called_def)

lemma called_call_Probe:
  "\<exists>\<sigma>'. exec (n + 4) (Call m (Probe t) x Drain f) \<sigma> = Some (Done \<sigma>') \<and> syncs \<sigma>' = syncs \<sigma>
     \<and> called t \<sigma>' = called t \<sigma> + 1"
  unfolding call_Probe by (simp add: called_def)


lemma later_unparked:
  assumes "followon (syncs \<sigma> c) = None"
  shows "exec (Suc n) (App m (SyncLater c) x s f) \<sigma> = exec n (Call m s x Drain f) \<sigma>"
  using assms by simp

lemma laters_unparked:
  assumes "followon (syncs \<sigma> c) = None"
  shows "\<exists>\<sigma>'. laters (n + 5) c m xs \<sigma> = Some (Done \<sigma>') \<and> called t \<sigma>' = called t \<sigma>
           \<and> syncs \<sigma>' = syncs \<sigma>"
  using assms
proof (induction xs arbitrary: \<sigma>)
  case Nil
  show ?case by simp
next
  case (Cons x xs)
  obtain \<sigma>1 where 1: "exec (n + 2 + 2) (Call m Drain x Drain Drain) \<sigma> = Some (Done \<sigma>1)"
      "syncs \<sigma>1 = syncs \<sigma>" "called t \<sigma>1 = called t \<sigma>"
    using called_call_Drain[of "n + 2" m x Drain Drain \<sigma> t] by auto
  have "exec (n + 5) (App m (SyncLater c) x Drain Drain) \<sigma> = Some (Done \<sigma>1)"
    using 1(1) later_unparked[OF Cons.prems, of "n + 4" m x Drain Drain]
    by (simp add: numeral_eq_Suc)
  moreover obtain \<sigma>' where "laters (n + 5) c m xs \<sigma>1 = Some (Done \<sigma>')" "called t \<sigma>' = called t \<sigma>1"
      "syncs \<sigma>' = syncs \<sigma>1"
    using Cons.IH[of \<sigma>1] Cons.prems 1(2) by auto
  ultimately show ?case
    using 1 by simp
qed

lemma laters_parked:
  assumes "followon (syncs \<sigma> c) = Some (m0, i0, Probe t, f0)" and "countDown (syncs \<sigma> c) = k"
  shows "\<exists>\<sigma>'. laters (n + 5) c m xs \<sigma> = Some (Done \<sigma>')
           \<and> called t \<sigma>' = called t \<sigma> + (if max 1 k \<le> int (length xs) then 1 else 0)
           \<and> (followon (syncs \<sigma>' c) = None \<longleftrightarrow> max 1 k \<le> int (length xs))"
  using assms
proof (induction xs arbitrary: \<sigma> k)
  case Nil
  then show ?case by simp
next
  case (Cons x xs)
  show ?case
  proof (cases "k \<le> 1")
    case True
    let ?\<sigma>0 = "\<sigma>\<lparr>syncs := (syncs \<sigma>)(c := (syncs \<sigma> c)\<lparr>countDown := k - 1, followon := None\<rparr>)\<rparr>"
    obtain \<sigma>1 where 1: "exec (n + 4) (Call m0 (Probe t) i0 Drain f0) ?\<sigma>0 = Some (Done \<sigma>1)"
        "syncs \<sigma>1 = syncs ?\<sigma>0" "called t \<sigma>1 = called t ?\<sigma>0 + 1"
      using called_call_Probe[of n m0 t i0 f0 ?\<sigma>0] by auto
    obtain \<sigma>2 where 2: "exec (n + 2 + 2) (Call m Drain x Drain Drain) \<sigma>1 = Some (Done \<sigma>2)"
        "syncs \<sigma>2 = syncs \<sigma>1" "called t \<sigma>2 = called t \<sigma>1"
      using called_call_Drain[of "n + 2" m x Drain Drain \<sigma>1 t] by auto
    have step: "exec (n + 5) (App m (SyncLater c) x Drain Drain) \<sigma> = Some (Done \<sigma>2)"
      using Cons.prems True 1(1) 2(1) by (simp add: numeral_eq_Suc Let_def)
    have f2: "followon (syncs \<sigma>2 c) = None"
      using 1(2) 2(2) by simp
    obtain \<sigma>' where 3: "laters (n + 5) c m xs \<sigma>2 = Some (Done \<sigma>')" "called t \<sigma>' = called t \<sigma>2"
        "syncs \<sigma>' = syncs \<sigma>2"
      using laters_unparked[OF f2, of n m xs t] by auto
    have "called t ?\<sigma>0 = called t \<sigma>"
      by (simp add: called_def)
    then show ?thesis
      using step 3 f2 1 2 True by simp
  next
    case False
    let ?\<sigma>0 = "\<sigma>\<lparr>syncs := (syncs \<sigma>)(c := (syncs \<sigma> c)\<lparr>countDown := k - 1\<rparr>)\<rparr>"
    obtain \<sigma>2 where 2: "exec (n + 2 + 2) (Call m Drain x Drain Drain) ?\<sigma>0 = Some (Done \<sigma>2)"
        "syncs \<sigma>2 = syncs ?\<sigma>0" "called t \<sigma>2 = called t ?\<sigma>0"
      using called_call_Drain[of "n + 2" m x Drain Drain ?\<sigma>0 t] by auto
    have step: "exec (n + 5) (App m (SyncLater c) x Drain Drain) \<sigma> = Some (Done \<sigma>2)"
      using Cons.prems False 2(1) by (simp add: numeral_eq_Suc Let_def)
    have p: "followon (syncs \<sigma>2 c) = Some (m0, i0, Probe t, f0)" "countDown (syncs \<sigma>2 c) = k - 1"
      using 2(2) Cons.prems by simp_all
    from Cons.IH[OF p] obtain \<sigma>' where 3: "laters (n + 5) c m xs \<sigma>2 = Some (Done \<sigma>')
           \<and> called t \<sigma>' = called t \<sigma>2 + (if max 1 (k - 1) \<le> int (length xs) then 1 else 0)
           \<and> (followon (syncs \<sigma>' c) = None \<longleftrightarrow> max 1 (k - 1) \<le> int (length xs))" ..
    have "called t ?\<sigma>0 = called t \<sigma>"
      by (simp add: called_def)
    moreover have "max 1 (k - 1) \<le> int (length xs) \<longleftrightarrow> max 1 k \<le> int (length (x # xs))"
      using False by auto
    ultimately show ?thesis
      using step 3 2 by simp
  qed
qed

text \<open>
  C10. Let the pair be fresh from \<^verbatim>\<open>IO.sync(N)\<close>. A \<^verbatim>\<open>later\<close> that executes before \<^verbatim>\<open>now\<close>
  leaves the state as it is and calls its own success continuation with its input.
  \<^verbatim>\<open>now\<close> parks its continuation and calls nothing. After any number of \<^verbatim>\<open>later\<close>
  invocations that follow, the parked continuation has been called once if there were at
  least \<open>max 1 N\<close> of them and not at all otherwise, and it is still parked exactly in
  the second case.
\<close>

theorem sync_counts_laters_after_now:
  assumes "syncs \<sigma> c = sync_init N"
  shows "exec (Suc n) (App m (SyncLater c) x s f) \<sigma> = exec n (Call m s x Drain f) \<sigma>
       \<and> exec (Suc n) (App mn (SyncNow c) xn (Probe t) fn) \<sigma>
           = Some (Done (\<sigma>\<lparr>syncs := (syncs \<sigma>)(c := (syncs \<sigma> c)\<lparr>followon := Some (mn, xn, Probe t, fn)\<rparr>)\<rparr>))
       \<and> (\<exists>\<sigma>'. laters (n + 5) c m xs
                  (\<sigma>\<lparr>syncs := (syncs \<sigma>)(c := (syncs \<sigma> c)\<lparr>followon := Some (mn, xn, Probe t, fn)\<rparr>)\<rparr>)
                  = Some (Done \<sigma>')
               \<and> called t \<sigma>' = called t \<sigma> + (if max 1 N \<le> int (length xs) then 1 else 0)
               \<and> (followon (syncs \<sigma>' c) = None \<longleftrightarrow> max 1 N \<le> int (length xs)))"
proof -
  let ?\<sigma>1 = "\<sigma>\<lparr>syncs := (syncs \<sigma>)(c := (syncs \<sigma> c)\<lparr>followon := Some (mn, xn, Probe t, fn)\<rparr>)\<rparr>"
  have u: "followon (syncs \<sigma> c) = None"
    using assms by (simp add: sync_init_def)
  have p: "followon (syncs ?\<sigma>1 c) = Some (mn, xn, Probe t, fn)"
    "countDown (syncs ?\<sigma>1 c) = (if N = 0 then 1 else N)"
    using assms by (simp_all add: sync_init_def)
  have m: "max 1 (if N = 0 then 1 else N) = max 1 N"
    by simp
  have c: "called t ?\<sigma>1 = called t \<sigma>"
    by (simp add: called_def)
  show ?thesis
    using later_unparked[OF u] laters_parked[OF p, of n m xs] unfolding m c by simp
qed

theorem sync_counts_laters_after_now_witness:
  "syncs (ExM\<lparr>syncs := (\<lambda>_. sync_init 2)\<rparr>) 0 = sync_init 2
   \<and> (\<exists>\<sigma>'. laters (0 + 5) 0 0 [Num 1, Num 2]
              (ExM\<lparr>syncs := (\<lambda>_. sync_init 2)\<rparr>
                 \<lparr>syncs := (syncs (ExM\<lparr>syncs := (\<lambda>_. sync_init 2)\<rparr>))
                    (0 := (syncs (ExM\<lparr>syncs := (\<lambda>_. sync_init 2)\<rparr>) 0)
                       \<lparr>followon := Some (0, Str ''go'', Probe ''parked'', Drain)\<rparr>)\<rparr>)
              = Some (Done \<sigma>')
            \<and> called ''parked'' \<sigma>' = 1
            \<and> followon (syncs \<sigma>' 0) = None)"
proof -
  have a: "syncs (ExM\<lparr>syncs := (\<lambda>_. sync_init 2)\<rparr>) 0 = sync_init 2"
    by simp
  have z: "called ''parked'' (ExM\<lparr>syncs := (\<lambda>_. sync_init 2)\<rparr>) = 0"
    by (simp add: called_def ExM_def)
  show ?thesis
    using a z sync_counts_laters_after_now [OF a, where n = 0 and m = 0 and mn = 0
        and xs = "[Num 1, Num 2]" and xn = "Str ''go''" and t = "''parked''" and fn = Drain]
    by simp
qed

section \<open>Claims about channels\<close>

lemma set_depth_fields [simp]:
  "trace (set_depth m d \<sigma>) = trace \<sigma>"
  "ticks (set_depth m d \<sigma>) = ticks \<sigma>"
  "chans (set_depth m d \<sigma>) = chans \<sigma>"
  by (simp_all add: set_depth_def)

lemma delivered_simps [simp]:
  "delivered t (bump m k \<sigma>) = delivered t \<sigma>"
  "delivered t (set_depth m d \<sigma>) = delivered t \<sigma>"
  "delivered t (next_tick c \<sigma>) = delivered t \<sigma> + mset (pending_value t c)"
  "delivered t (\<sigma>\<lparr>trace := trace \<sigma> @ [(t, x)]\<rparr>) = delivered t \<sigma> + {#x#}"
  "delivered t (\<sigma>\<lparr>chans := ch\<rparr>) = delivered t \<sigma>"
  "delivered t (\<sigma>\<lparr>ticks := c # ticks \<sigma>'\<rparr>) = delivered t (\<sigma>\<lparr>ticks := ticks \<sigma>'\<rparr>) + mset (pending_value t c)"
  by (simp_all add: delivered_def)

text \<open>What a call of a recording continuation, or of one that does nothing, leaves.\<close>

lemma step_Drain:
  assumes "list_all (task_ok t) (ticks \<sigma>)" and "2 \<le> k"
  shows "\<exists>\<sigma>'. exec k (Call m Drain x Drain f) \<sigma> = Some (Done \<sigma>') \<and> chans \<sigma>' = chans \<sigma>
           \<and> delivered t \<sigma>' = delivered t \<sigma> \<and> list_all (task_ok t) (ticks \<sigma>')"
proof -
  from assms(2) obtain n where k: "k = n + 2"
    by (metis le_add_diff_inverse2)
  show ?thesis
    unfolding k call_Drain using assms(1) by simp
qed

lemma step_Probe:
  assumes "list_all (task_ok t) (ticks \<sigma>)" and "4 \<le> k"
  shows "\<exists>\<sigma>'. exec k (Call m (Probe t) x Drain f) \<sigma> = Some (Done \<sigma>') \<and> chans \<sigma>' = chans \<sigma>
           \<and> delivered t \<sigma>' = delivered t \<sigma> + {#x#} \<and> list_all (task_ok t) (ticks \<sigma>')"
proof -
  from assms(2) obtain n where k: "k = n + 4"
    by (metis le_add_diff_inverse2)
  show ?thesis
    unfolding k call_Probe using assms(1) by (simp add: delivered_def)
qed

lemma step_Recall:
  "exec (Suc k) (Recall m a x s f) \<sigma> = exec k (Call m a x s f) (set_depth m (min 0 (maxdepth \<sigma> - 1)) \<sigma>)"
  by (simp add: recall_def)

lemma flush_loop_inv:
  assumes "flush_loop ws xs ts = (ws', xs', ts')"
    and "list_all (\<lambda>w. fst (snd w) = Probe t) ws" and "list_all (task_ok t) ts"
  shows "list_all (\<lambda>w. fst (snd w) = Probe t) ws' \<and> list_all (task_ok t) ts'
       \<and> mset (concat (map (pending_value t) ts')) + mset xs'
           = mset (concat (map (pending_value t) ts)) + mset xs"
  using assms
  by (induction ws xs ts arbitrary: ws' xs' ts' rule: flush_loop.induct) simp_all

lemma chan_inv_flush: "chan_inv c t S \<sigma> \<Longrightarrow> chan_inv c t S (flush c \<sigma>)"
proof -
  assume a: "chan_inv c t S \<sigma>"
  obtain ws' xs' ts' where f: "flush_loop (waiters (chans \<sigma> c)) (queue (chans \<sigma> c)) (ticks \<sigma>) = (ws', xs', ts')"
    by (cases "flush_loop (waiters (chans \<sigma> c)) (queue (chans \<sigma> c)) (ticks \<sigma>)") auto
  from flush_loop_inv[OF f, of t] a show ?thesis
    by (simp add: chan_inv_def flush_def f delivered_def add.assoc)
qed

lemma chan_inv_Send:
  assumes "chan_inv c t S \<sigma>"
  shows "\<exists>\<sigma>'. exec (n + 5) (App m (ChanSend c) v Drain Drain) \<sigma> = Some (Done \<sigma>')
           \<and> chan_inv c t (S + {#v#}) \<sigma>'"
proof -
  let ?\<sigma>1 = "\<sigma>\<lparr>chans := (chans \<sigma>)(c := (chans \<sigma> c)\<lparr>queue := queue (chans \<sigma> c) @ [v]\<rparr>)\<rparr>"
  have "chan_inv c t (S + {#v#}) ?\<sigma>1"
    using assms by (auto simp: chan_inv_def)
  then have 2: "chan_inv c t (S + {#v#}) (flush c ?\<sigma>1)"
    by (rule chan_inv_flush)
  then obtain \<sigma>' where 3: "exec (n + 2 + 2) (Call m Drain v Drain Drain) (flush c ?\<sigma>1) = Some (Done \<sigma>')"
      "chans \<sigma>' = chans (flush c ?\<sigma>1)" "delivered t \<sigma>' = delivered t (flush c ?\<sigma>1)"
      "list_all (task_ok t) (ticks \<sigma>')"
    using step_Drain[of t "flush c ?\<sigma>1" "n + 2 + 2" m v Drain] by (auto simp: chan_inv_def)
  have "exec (n + 5) (App m (ChanSend c) v Drain Drain) \<sigma> = Some (Done \<sigma>')"
    using 3(1) by (simp add: numeral_eq_Suc Let_def)
  moreover have "chan_inv c t (S + {#v#}) \<sigma>'"
    using 2 3 by (simp add: chan_inv_def)
  ultimately show ?thesis by blast
qed

lemma chan_inv_Recv:
  assumes "chan_inv c t S \<sigma>"
  shows "\<exists>\<sigma>'. exec (n + 5) (App m (ChanRecv c) x (Probe t) f) \<sigma> = Some (Done \<sigma>')
           \<and> chan_inv c t S \<sigma>'"
proof -
  let ?\<sigma>1 = "flush c \<sigma>"
  have 1: "chan_inv c t S ?\<sigma>1"
    using assms by (rule chan_inv_flush)
  show ?thesis
  proof (cases "queue (chans ?\<sigma>1 c)")
    case Nil
    then show ?thesis
      using 1 by (simp add: numeral_eq_Suc Let_def chan_inv_def)
  next
    case (Cons y ys)
    let ?\<sigma>2 = "?\<sigma>1\<lparr>chans := (chans ?\<sigma>1)(c := (chans ?\<sigma>1 c)\<lparr>queue := ys\<rparr>)\<rparr>"
    have t2: "list_all (task_ok t) (ticks ?\<sigma>2)"
      using 1 by (simp add: chan_inv_def)
    obtain \<sigma>' where 3: "exec (n + 4) (Call m (Probe t) y Drain f) ?\<sigma>2 = Some (Done \<sigma>')"
      "chans \<sigma>' = chans ?\<sigma>2" "delivered t \<sigma>' = delivered t ?\<sigma>2 + {#y#}"
      "list_all (task_ok t) (ticks \<sigma>')"
      using step_Probe[OF t2, of "n + 4" m y f] by auto
    have "exec (n + 5) (App m (ChanRecv c) x (Probe t) f) \<sigma> = Some (Done \<sigma>')"
      using 3(1) Cons by (simp add: numeral_eq_Suc Let_def)
    moreover have "chan_inv c t S \<sigma>'"
      using 1 3 Cons by (auto simp: chan_inv_def)
    ultimately show ?thesis by blast
  qed
qed

lemma chan_inv_Turn:
  assumes "chan_inv c t S \<sigma>"
  shows "\<exists>\<sigma>'. run_tick (n + 5) \<sigma> = Some (Done \<sigma>') \<and> chan_inv c t S \<sigma>'"
proof (cases "ticks \<sigma>")
  case Nil
  then show ?thesis using assms by (simp add: run_tick_def)
next
  case (Cons task ts)
  let ?\<sigma>1 = "\<sigma>\<lparr>ticks := ts\<rparr>"
  have ok: "task_ok t task" and oks: "list_all (task_ok t) (ticks ?\<sigma>1)"
    using assms Cons by (simp_all add: chan_inv_def)
  have d: "delivered t \<sigma> = delivered t ?\<sigma>1 + mset (pending_value t task)"
    using Cons by (simp add: delivered_def)
  have r: "run_tick (n + 5) \<sigma> = exec (n + 5) task ?\<sigma>1"
    using Cons by (simp add: run_tick_def)
  let ?P = "\<lambda>\<sigma>'. chans \<sigma>' = chans \<sigma> \<and> delivered t \<sigma>' = delivered t \<sigma> \<and> list_all (task_ok t) (ticks \<sigma>')"
  have "\<exists>\<sigma>'. exec (n + 5) task ?\<sigma>1 = Some (Done \<sigma>') \<and> ?P \<sigma>'"
  proof (cases task)
    case (Call m a x s f)
    then have s: "s = Drain" and a: "a = Probe t \<or> a = Drain" using ok by auto
    from a show ?thesis
    proof
      assume "a = Probe t"
      then show ?thesis
        using step_Probe[OF oks, of "n + 5" m x f] Call s d by auto
    next
      assume "a = Drain"
      then show ?thesis
        using step_Drain[OF oks, of "n + 5" m x f] Call s d by auto
    qed
  next
    case (Recall m a x s f)
    then have s: "s = Drain" and a: "a = Probe t \<or> a = Drain" using ok by auto
    let ?\<sigma>2 = "set_depth m (min 0 (maxdepth ?\<sigma>1 - 1)) ?\<sigma>1"
    have oks2: "list_all (task_ok t) (ticks ?\<sigma>2)"
      using oks by simp
    have e: "exec (n + 5) (Recall m a x s f) ?\<sigma>1 = exec (n + 4) (Call m a x s f) ?\<sigma>2"
      using step_Recall[of "n + 4" m a x s f ?\<sigma>1] by (simp add: numeral_eq_Suc)
    from a show ?thesis
    proof
      assume "a = Probe t"
      then show ?thesis
        using step_Probe[OF oks2, of "n + 4" m x f] Recall s d e by auto
    next
      assume "a = Drain"
      then show ?thesis
        using step_Drain[OF oks2, of "n + 4" m x f] Recall s d e by auto
    qed
  qed (use ok in auto)
  then show ?thesis
    using r assms by (auto simp: chan_inv_def)
qed

lemma chan_run_inv:
  assumes "chan_inv c t S \<sigma>"
  shows "\<exists>\<sigma>'. chan_run (n + 5) c t ops \<sigma> = Some (Done \<sigma>') \<and> chan_inv c t (S + mset (sent ops)) \<sigma>'"
  using assms
proof (induction ops arbitrary: S \<sigma>)
  case Nil
  then show ?case by simp
next
  case (Cons op ops)
  show ?case
  proof (cases op)
    case (Send m v)
    from chan_inv_Send[OF Cons.prems, of n m v] obtain \<sigma>1 where
      1: "exec (n + 5) (App m (ChanSend c) v Drain Drain) \<sigma> = Some (Done \<sigma>1) \<and> chan_inv c t (S + {#v#}) \<sigma>1" ..
    from Cons.IH[of "S + {#v#}" \<sigma>1] 1 show ?thesis
      using Send by (auto simp: add.assoc)
  next
    case (Recv m)
    from chan_inv_Recv[OF Cons.prems, of n m Undefined Drain] obtain \<sigma>1 where
      1: "exec (n + 5) (App m (ChanRecv c) Undefined (Probe t) Drain) \<sigma> = Some (Done \<sigma>1) \<and> chan_inv c t S \<sigma>1" ..
    from Cons.IH[of S \<sigma>1] 1 show ?thesis
      using Recv by auto
  next
    case Turn
    from chan_inv_Turn[OF Cons.prems, of n] obtain \<sigma>1 where
      1: "run_tick (n + 5) \<sigma> = Some (Done \<sigma>1) \<and> chan_inv c t S \<sigma>1" ..
    from Cons.IH[of S \<sigma>1] 1 show ?thesis
      using Turn by auto
  qed
qed

text \<open>
  C9 (as amended). Start with an empty channel, no pending task and an empty trace.
  After every sequence of sends, receives and turns of the event loop, the values
  delivered to the receivers together with the values still in the queue of the channel
  are, as multisets, the values sent: nothing is lost, nothing is delivered twice, and
  what has been delivered has been sent.
\<close>

theorem channel_pairing:
  assumes "chans \<sigma> c = \<lparr>waiters = [], queue = []\<rparr>" and "ticks \<sigma> = []" and "trace \<sigma> = []"
  shows "\<exists>\<sigma>'. chan_run (n + 5) c t ops \<sigma> = Some (Done \<sigma>')
           \<and> delivered t \<sigma>' + mset (queue (chans \<sigma>' c)) = mset (sent ops)
           \<and> delivered t \<sigma>' \<subseteq># mset (sent ops)"
proof -
  have "chan_inv c t {#} \<sigma>"
    using assms by (simp add: chan_inv_def delivered_def)
  from chan_run_inv[OF this, of n ops] obtain \<sigma>' where
    1: "chan_run (n + 5) c t ops \<sigma> = Some (Done \<sigma>') \<and> chan_inv c t ({#} + mset (sent ops)) \<sigma>'" ..
  then have 2: "delivered t \<sigma>' + mset (queue (chans \<sigma>' c)) = mset (sent ops)"
    by (simp add: chan_inv_def)
  then have "delivered t \<sigma>' \<subseteq># mset (sent ops)"
    by (metis mset_subset_eq_add_left)
  with 1 2 show ?thesis by blast
qed

theorem channel_pairing_witness:
  "chans ExM 0 = \<lparr>waiters = [], queue = []\<rparr> \<and> ticks ExM = []
   \<and> trace ExM = []
   \<and> (\<exists>\<sigma>'. chan_run (0 + 5) 0 ''rx'' [Recv 0, Send 0 (Str ''hi''), Send 0 (Str ''bye''), Turn]
              ExM = Some (Done \<sigma>')
          \<and> delivered ''rx'' \<sigma>' + mset (queue (chans \<sigma>' 0))
              = mset (sent [Recv 0, Send 0 (Str ''hi''), Send 0 (Str ''bye''), Turn])
          \<and> delivered ''rx'' \<sigma>'
              \<subseteq># mset (sent [Recv 0, Send 0 (Str ''hi''), Send 0 (Str ''bye''), Turn]))"
proof -
  have a: "chans ExM 0 = \<lparr>waiters = [], queue = []\<rparr>" "ticks ExM = []"
    "trace ExM = []"
    by (simp_all add: ExM_def)
  show ?thesis
    using a channel_pairing [OF a, of 0 "''rx''"
        "[Recv 0, Send 0 (Str ''hi''), Send 0 (Str ''bye''), Turn]"]
    by blast
qed

text \<open>
  C9 as stated fails: after a send that no receive has met, one value has been sent and
  none has been delivered; the value waits in the queue.
\<close>

theorem channel_pairing_counterexample:
  "(case chan_run 5 0 ''rx'' [Send 0 (Num 1)] ExM of
      Some (Done \<sigma>) \<Rightarrow>
        delivered ''rx'' \<sigma> = {#} \<and> mset (sent [Send 0 (Num 1)]) = {#Num 1#}
        \<and> delivered ''rx'' \<sigma> \<noteq> mset (sent [Send 0 (Num 1)])
        \<and> queue (chans \<sigma> 0) = [Num 1]
    | _ \<Rightarrow> False)"
proof -
  have "(case chan_run 5 0 ''rx'' [Send 0 (Num 1)] ExM of
      Some (Done \<sigma>) \<Rightarrow> trace \<sigma> = [] \<and> ticks \<sigma> = [] \<and> queue (chans \<sigma> 0) = [Num 1]
    | _ \<Rightarrow> False)"
    by code_simp
  then show ?thesis
    by (auto simp: delivered_def split: option.splits outcome.splits)
qed

section \<open>Claims about atomic actions\<close>

text \<open>
  C2 (as amended). A call that arrives at an atomic action while it is busy is appended
  to the buffer in every case. When the capacity is not zero and the buffer then holds at
  least as many entries as the capacity (\<^verbatim>\<open>arr.length + 1 >= M.kBufferCapacity\<close> before
  the push), the call goes on by delivering the shared pause condition, created if there
  is none, to the failure continuation of the caller; otherwise it returns.
\<close>

theorem atomic_enqueues_and_pauses:
  assumes "busy (atomics \<sigma> k)"
  shows "(kBufferCapacity \<sigma> \<noteq> 0 \<and> kBufferCapacity \<sigma> \<le> int (length (arr (atomics \<sigma> k))) + 1 \<longrightarrow>
            exec (Suc n) (App m (AtomicDoit k a) x s f) \<sigma>
              = exec n (Call m f (PauseRef (fst (shared_pause k (enqueued k x s f \<sigma>)))) Drain Drain)
                  (snd (shared_pause k (enqueued k x s f \<sigma>)))
            \<and> arr (atomics (snd (shared_pause k (enqueued k x s f \<sigma>))) k)
                = arr (atomics \<sigma> k) @ [(x, s, f)]
            \<and> pauseStream (atomics (snd (shared_pause k (enqueued k x s f \<sigma>))) k)
                = Some (fst (shared_pause k (enqueued k x s f \<sigma>))))
       \<and> (\<not> (kBufferCapacity \<sigma> \<noteq> 0 \<and> kBufferCapacity \<sigma> \<le> int (length (arr (atomics \<sigma> k))) + 1) \<longrightarrow>
            exec (Suc n) (App m (AtomicDoit k a) x s f) \<sigma> = Some (Done (enqueued k x s f \<sigma>)))
       \<and> arr (atomics (enqueued k x s f \<sigma>) k) = arr (atomics \<sigma> k) @ [(x, s, f)]"
  using assms
  by (auto simp: enqueued_def Let_def shared_pause_def new_pause_def
      split: prod.splits option.splits)

theorem atomic_enqueues_and_pauses_witness:
  "busy (atomics (ExM\<lparr>atomics := (\<lambda>_. \<lparr>arr = replicate 7 (Null, Drain, Drain), busy = True,
                                               pauseStream = None\<rparr>)\<rparr>) 0)
   \<and> arr (atomics (snd (shared_pause 0 (enqueued 0 (Num 8) Drain Drain
        (ExM\<lparr>atomics := (\<lambda>_. \<lparr>arr = replicate 7 (Null, Drain, Drain), busy = True,
                                       pauseStream = None\<rparr>)\<rparr>)))) 0)
       = replicate 7 (Null, Drain, Drain) @ [(Num 8, Drain, Drain)]
   \<and> busy (atomics (ExM\<lparr>atomics := (\<lambda>_. \<lparr>arr = [], busy = True, pauseStream = None\<rparr>)\<rparr>) 0)
   \<and> exec (Suc 0) (App 0 (AtomicDoit 0 Drain) (Num 1) Drain Drain)
        (ExM\<lparr>atomics := (\<lambda>_. \<lparr>arr = [], busy = True, pauseStream = None\<rparr>)\<rparr>)
       = Some (Done (enqueued 0 (Num 1) Drain Drain
           (ExM\<lparr>atomics := (\<lambda>_. \<lparr>arr = [], busy = True, pauseStream = None\<rparr>)\<rparr>)))"
proof -
  let ?\<sigma>7 = "ExM\<lparr>atomics := (\<lambda>_. \<lparr>arr = replicate 7 (Null, Drain, Drain), busy = True,
                                               pauseStream = None\<rparr>)\<rparr>"
  let ?\<sigma>0 = "ExM\<lparr>atomics := (\<lambda>_. \<lparr>arr = [], busy = True, pauseStream = None\<rparr>)\<rparr>"
  have b7: "busy (atomics ?\<sigma>7 0)" and b0: "busy (atomics ?\<sigma>0 0)"
    by simp_all
  have k7: "kBufferCapacity ?\<sigma>7 \<noteq> 0 \<and> kBufferCapacity ?\<sigma>7 \<le> int (length (arr (atomics ?\<sigma>7 0))) + 1"
    by (simp add: ExM_def)
  have k0: "\<not> (kBufferCapacity ?\<sigma>0 \<noteq> 0 \<and> kBufferCapacity ?\<sigma>0 \<le> int (length (arr (atomics ?\<sigma>0 0))) + 1)"
    by (simp add: ExM_def)
  have a7: "arr (atomics ?\<sigma>7 0) = replicate 7 (Null, Drain, Drain)"
    by simp
  show ?thesis
    using b7 b0
      atomic_enqueues_and_pauses [OF b7, where n = 0 and m = 0 and a = Drain and x = "Num 8"
        and s = Drain and f = Drain]
      atomic_enqueues_and_pauses [OF b0, where n = 0 and m = 0 and a = Drain and x = "Num 1"
        and s = Drain and f = Drain] k7 k0 a7
    by metis
qed

text \<open>
  C2 as stated fails. Ten calls arrive at an atomic action whose action does not finish,
  each with a failure continuation that records what it gets. With the capacity 8 the
  buffer ends with nine entries, and the two calls that got the pause condition are in it.
\<close>

theorem atomic_buffer_counterexample:
  "(case calls 50 0 (AtomicDoit 0 Drain) Drain (Probe ''paused'')
           [Num 1, Num 2, Num 3, Num 4, Num 5, Num 6, Num 7, Num 8, Num 9, Num 10] ExM of
      Some (Done \<sigma>) \<Rightarrow>
        kBufferCapacity \<sigma> = 8
        \<and> map fst (arr (atomics \<sigma> 0))
            = [Num 2, Num 3, Num 4, Num 5, Num 6, Num 7, Num 8, Num 9, Num 10]
        \<and> trace \<sigma> = [(''paused'', PauseRef 0), (''paused'', PauseRef 0)]
    | _ \<Rightarrow> False)"
  by code_simp


section \<open>Claims about generators\<close>

lemma burst_le: "burst p pos c \<le> c"
  by (induction c arbitrary: pos) auto

lemma handed_upd [simp]:
  "handed t (\<sigma>\<lparr>gens := G\<rparr>) = handed t \<sigma>"
  "handed t (\<sigma>\<lparr>orchs := os\<rparr>) = handed t \<sigma>"
  "handed t (\<sigma>\<lparr>timers := ts\<rparr>) = handed t \<sigma>"
  "handed t (\<sigma>\<lparr>trace := trace \<sigma> @ [(u, v)]\<rparr>) = handed t \<sigma> + (if u = t then {#v#} else {#})"
  "handed t (\<sigma>\<lparr>ticks := ticks \<sigma> @ [c]\<rparr>) = handed t \<sigma> + mset (handing t c)"
  by (simp_all add: handed_def)

lemma handed_bump [simp]: "handed t (bump m k \<sigma>) = handed t \<sigma>"
  by (simp add: bump_def set_depth_def)

lemma handed_set_depth [simp]: "handed t (set_depth m d \<sigma>) = handed t \<sigma>"
  by (simp add: set_depth_def)

lemma handed_next_tick [simp]: "handed t (next_tick c \<sigma>) = handed t \<sigma> + mset (handing t c)"
  by (simp add: next_tick_def)

lemma handed_delay_genOne [simp]: "handed t (delay m ms (GenOne g) x s f \<sigma>) = handed t \<sigma>"
  by (simp add: delay_def)

lemma delay_fields [simp]:
  "trace (delay m ms a i s f \<sigma>) = trace \<sigma>"
  "gens (delay m ms a i s f \<sigma>) = gens \<sigma>"
  "kBufferCapacity (delay m ms a i s f \<sigma>) = kBufferCapacity \<sigma>"
  by (simp_all add: delay_def next_tick_def)

lemma deferred_delay [simp]: "deferred_genOne m g x s f ms (delay m ms (GenOne g) x s f \<sigma>)"
  by (simp add: deferred_genOne_def delay_def next_tick_def)

text \<open>
  One step of \<^verbatim>\<open>genOne_\<close>: the state after \<^verbatim>\<open>gen()\<close> and \<^verbatim>\<open>--genCount\<close>, and what follows.
\<close>

lemma genOne_step:
  assumes "\<not> paused (gens \<sigma> g)" and "0 \<le> genCount (gens \<sigma> g)" and "0 \<le> kBufferCapacity \<sigma>"
  shows "exec (Suc N) (App m (GenOne g) x s f) \<sigma>
       = (let c = gens \<sigma> g;
              \<sigma>1 = \<sigma>\<lparr>gens := (gens \<sigma>)(g := c\<lparr>produced := produced c + 1,
                                               genCount := int (allowance \<sigma> g) - 1\<rparr>)\<rparr>
          in if producer c (produced c) = Undefined then Some (Done \<sigma>1)
             else then_do (exec N (Call m s (producer c (produced c)) Drain f) \<sigma>1)
                    (\<lambda>\<sigma>2. if \<not> paused (gens \<sigma>2 g) then
                             (if genCount (gens \<sigma>2 g) = 0
                              then Some (Done (delay m (delay_ms (gens \<sigma>2 g)) (GenOne g) x s f \<sigma>2))
                              else exec N (App m (GenOne g) x s f) \<sigma>2)
                           else Some (Done \<sigma>2)))"
  using assms by (simp add: Let_def allowance_def)


lemma allowance_pos: "gen_ready \<sigma> g \<Longrightarrow> 0 < allowance \<sigma> g"
  by (auto simp: gen_ready_def allowance_def)

lemma allowance_le: "gen_ready \<sigma> g \<Longrightarrow> int (allowance \<sigma> g) \<le> kBufferCapacity \<sigma>"
  by (auto simp: gen_ready_def allowance_def)

lemma burst_ok_step:
  assumes ok: "burst_ok t g m x s f \<sigma>2 \<sigma>'"
    and def: "producer (gens \<sigma> g) (produced (gens \<sigma> g)) \<noteq> Undefined"
    and al: "allowance \<sigma> g = Suc (allowance \<sigma>2 g)"
    and g2: "produced (gens \<sigma>2 g) = Suc (produced (gens \<sigma> g))"
      "producer (gens \<sigma>2 g) = producer (gens \<sigma> g)"
      "delay_ms (gens \<sigma>2 g) = delay_ms (gens \<sigma> g)"
      "kBufferCapacity \<sigma>2 = kBufferCapacity \<sigma>"
    and h: "handed t \<sigma>2 = handed t \<sigma> + {#producer (gens \<sigma> g) (produced (gens \<sigma> g))#}"
    and le: "int (allowance \<sigma> g) \<le> kBufferCapacity \<sigma>"
  shows "burst_ok t g m x s f \<sigma> \<sigma>'"
proof -
  define p where "p = producer (gens \<sigma> g)"
  define pos where "pos = produced (gens \<sigma> g)"
  define a where "a = allowance \<sigma>2 g"
  define b2 where "b2 = burst p (Suc pos) a"
  have b: "burst p pos (Suc a) = Suc b2"
    using def by (simp add: p_def pos_def b2_def)
  have b2le: "b2 \<le> a"
    unfolding b2_def by (rule burst_le)
  have u: "map p [pos..<pos + Suc b2] = p pos # map p [Suc pos..<Suc pos + b2]"
    by (simp add: upt_conv_Cons del: upt_Suc)
  from ok have f: "handed t \<sigma>' = handed t \<sigma>2 + mset (map p [Suc pos..<Suc pos + b2])"
      "produced (gens \<sigma>' g) = Suc pos + b2 + (if b2 < a then 1 else 0)"
      "producer (gens \<sigma>' g) = p" "delay_ms (gens \<sigma>' g) = delay_ms (gens \<sigma> g)"
      "kBufferCapacity \<sigma>' = kBufferCapacity \<sigma>" "gen_ready \<sigma>' g"
      "b2 = a \<longrightarrow> genCount (gens \<sigma>' g) = 0 \<and> deferred_genOne m g x s f (delay_ms (gens \<sigma> g)) \<sigma>'"
    unfolding burst_ok_def Let_def g2 by (simp_all add: p_def pos_def a_def b2_def)
  have 1: "int (Suc b2) \<le> kBufferCapacity \<sigma>"
    using b2le le al by (simp add: a_def)
  have 2: "handed t \<sigma>' = handed t \<sigma> + mset (map p [pos..<pos + Suc b2])"
    unfolding f(1) h u by (simp add: p_def pos_def)
  have 3: "produced (gens \<sigma>' g) = pos + Suc b2 + (if Suc b2 < Suc a then 1 else 0)"
    unfolding f(2) by simp
  have 4: "Suc b2 = Suc a \<longrightarrow> genCount (gens \<sigma>' g) = 0 \<and> deferred_genOne m g x s f (delay_ms (gens \<sigma> g)) \<sigma>'"
    using f(7) by simp
  show ?thesis
    unfolding burst_ok_def Let_def al
    unfolding a_def[symmetric] p_def[symmetric] pos_def[symmetric] b
    using 1 2 3 4 f(3,4,5,6) by blast
qed

lemma gen_loop:
  assumes cont: "\<And>j \<tau> v. \<exists>\<tau>'. exec (n0 + j) (Call m s v Drain f) \<tau> = Some (Done \<tau>')
        \<and> gens \<tau>' g = gens \<tau> g \<and> kBufferCapacity \<tau>' = kBufferCapacity \<tau>
        \<and> handed t \<tau>' = handed t \<tau> + {#v#}"
    and "gen_ready \<sigma> g" and "allowance \<sigma> g = Suc a"
  shows "\<exists>\<sigma>'. exec (n0 + Suc a + k) (App m (GenOne g) x s f) \<sigma> = Some (Done \<sigma>')
           \<and> burst_ok t g m x s f \<sigma> \<sigma>'"
  using assms(2,3)
proof (induction a arbitrary: \<sigma>)
  case 0
  let ?c = "gens \<sigma> g"
  let ?\<sigma>1 = "\<sigma>\<lparr>gens := (gens \<sigma>)(g := ?c\<lparr>produced := produced ?c + 1,
                                             genCount := int (allowance \<sigma> g) - 1\<rparr>)\<rparr>"
  have r: "\<not> paused ?c" "0 \<le> genCount ?c" "0 \<le> kBufferCapacity \<sigma>" "1 \<le> kBufferCapacity \<sigma>"
    using 0 by (simp_all add: gen_ready_def)
  note st = genOne_step[OF r(1,2,3), of "n0 + k" m x s f, unfolded Let_def]
  show ?case
  proof (cases "producer ?c (produced ?c) = Undefined")
    case True
    have "exec (n0 + Suc 0 + k) (App m (GenOne g) x s f) \<sigma> = Some (Done ?\<sigma>1)"
      using st True by simp
    moreover have "burst_ok t g m x s f \<sigma> ?\<sigma>1"
      using True 0 r by (simp add: burst_ok_def Let_def gen_ready_def)
    ultimately show ?thesis by blast
  next
    case False
    obtain \<sigma>2 where 2: "exec (n0 + k) (Call m s (producer ?c (produced ?c)) Drain f) ?\<sigma>1 = Some (Done \<sigma>2)"
        "gens \<sigma>2 g = gens ?\<sigma>1 g" "kBufferCapacity \<sigma>2 = kBufferCapacity ?\<sigma>1"
        "handed t \<sigma>2 = handed t ?\<sigma>1 + {#producer ?c (produced ?c)#}"
      using cont[of k "producer ?c (produced ?c)" ?\<sigma>1] by blast
    let ?\<sigma>' = "delay m (delay_ms ?c) (GenOne g) x s f \<sigma>2"
    have "exec (n0 + Suc 0 + k) (App m (GenOne g) x s f) \<sigma> = Some (Done ?\<sigma>')"
      using st False 2 0 r by simp
    moreover have "burst_ok t g m x s f \<sigma> ?\<sigma>'"
      using False 0 r 2 by (simp add: burst_ok_def Let_def gen_ready_def)
    ultimately show ?thesis by blast
  qed
next
  case (Suc a)
  let ?c = "gens \<sigma> g"
  let ?\<sigma>1 = "\<sigma>\<lparr>gens := (gens \<sigma>)(g := ?c\<lparr>produced := produced ?c + 1,
                                             genCount := int (allowance \<sigma> g) - 1\<rparr>)\<rparr>"
  have r: "\<not> paused ?c" "0 \<le> genCount ?c" "0 \<le> kBufferCapacity \<sigma>" "1 \<le> kBufferCapacity \<sigma>"
    using Suc.prems by (simp_all add: gen_ready_def)
  have le: "int (Suc (Suc a)) \<le> kBufferCapacity \<sigma>"
    using allowance_le[OF Suc.prems(1)] Suc.prems(2) by simp
  note st = genOne_step[OF r(1,2,3), of "n0 + Suc a + k" m x s f, unfolded Let_def]
  show ?case
  proof (cases "producer ?c (produced ?c) = Undefined")
    case True
    have "exec (n0 + Suc (Suc a) + k) (App m (GenOne g) x s f) \<sigma> = Some (Done ?\<sigma>1)"
      using st True by simp
    moreover have "burst_ok t g m x s f \<sigma> ?\<sigma>1"
      using True Suc.prems r le by (simp add: burst_ok_def Let_def gen_ready_def)
    ultimately show ?thesis by blast
  next
    case False
    obtain \<sigma>2 where 2: "exec (n0 + (Suc a + k)) (Call m s (producer ?c (produced ?c)) Drain f) ?\<sigma>1 = Some (Done \<sigma>2)"
        "gens \<sigma>2 g = gens ?\<sigma>1 g" "kBufferCapacity \<sigma>2 = kBufferCapacity ?\<sigma>1"
        "handed t \<sigma>2 = handed t ?\<sigma>1 + {#producer ?c (produced ?c)#}"
      using cont[of "Suc a + k" "producer ?c (produced ?c)" ?\<sigma>1] by blast
    have g2: "genCount (gens \<sigma>2 g) = int (Suc a)" "\<not> paused (gens \<sigma>2 g)"
        "produced (gens \<sigma>2 g) = Suc (produced ?c)" "producer (gens \<sigma>2 g) = producer ?c"
        "delay_ms (gens \<sigma>2 g) = delay_ms ?c" "kBufferCapacity \<sigma>2 = kBufferCapacity \<sigma>"
      using 2 Suc.prems(2) r by simp_all
    have rd: "gen_ready \<sigma>2 g"
      using g2 r le by (simp add: gen_ready_def)
    have al: "allowance \<sigma>2 g = Suc a"
      using g2 by (simp add: allowance_def)
    from Suc.IH[OF rd al] obtain \<sigma>' where 3:
        "exec (n0 + Suc a + k) (App m (GenOne g) x s f) \<sigma>2 = Some (Done \<sigma>')"
        "burst_ok t g m x s f \<sigma>2 \<sigma>'"
      by blast
    have "exec (n0 + Suc (Suc a) + k) (App m (GenOne g) x s f) \<sigma> = Some (Done \<sigma>')"
      using st False 2(1) 3(1) g2 by (simp add: add.assoc)
    moreover have "burst_ok t g m x s f \<sigma> \<sigma>'"
    proof (rule burst_ok_step[OF 3(2) False])
      show "allowance \<sigma> g = Suc (allowance \<sigma>2 g)"
        using Suc.prems(2) al by simp
      show "handed t \<sigma>2 = handed t \<sigma> + {#producer ?c (produced ?c)#}"
        using 2(4) by simp
      show "int (allowance \<sigma> g) \<le> kBufferCapacity \<sigma>"
        using le Suc.prems(2) by simp
    qed (use g2 in simp_all)
    ultimately show ?thesis by blast
  qed
qed


lemma burst_ok_cong:
  assumes "gens \<sigma>a = gens \<sigma>b" and "kBufferCapacity \<sigma>a = kBufferCapacity \<sigma>b"
    and "handed t \<sigma>a = handed t \<sigma>b"
  shows "burst_ok t g m x s f \<sigma>a \<sigma>' = burst_ok t g m x s f \<sigma>b \<sigma>'"
  using assms by (simp add: burst_ok_def allowance_def)

lemma gen_ready_cong:
  assumes "gens \<sigma>a = gens \<sigma>b" and "kBufferCapacity \<sigma>a = kBufferCapacity \<sigma>b"
  shows "gen_ready \<sigma>a g = gen_ready \<sigma>b g" "allowance \<sigma>a g = allowance \<sigma>b g"
  using assms by (simp_all add: gen_ready_def allowance_def)

lemma gen_run:
  assumes cont: "\<And>j \<tau> v. \<exists>\<tau>'. exec (n0 + j) (Call m s v Drain f) \<tau> = Some (Done \<tau>')
        \<and> gens \<tau>' g = gens \<tau> g \<and> kBufferCapacity \<tau>' = kBufferCapacity \<tau>
        \<and> handed t \<tau>' = handed t \<tau> + {#v#}"
    and "gen_ready \<sigma> g"
  shows "\<exists>\<sigma>'. exec (n0 + allowance \<sigma> g + k) (App m (GenOne g) x s f) \<sigma> = Some (Done \<sigma>')
           \<and> burst_ok t g m x s f \<sigma> \<sigma>'"
proof -
  obtain a where a: "allowance \<sigma> g = Suc a"
    using allowance_pos[OF assms(2)] by (cases "allowance \<sigma> g") auto
  show ?thesis
    unfolding a by (rule gen_loop[OF cont assms(2) a])
qed

lemma set_depth_more_fields [simp]:
  "gens (set_depth m d \<sigma>) = gens \<sigma>"
  "kBufferCapacity (set_depth m d \<sigma>) = kBufferCapacity \<sigma>"
  "timers (set_depth m d \<sigma>) = timers \<sigma>"
  by (simp_all add: set_depth_def)

lemma postponed_cong:
  assumes "gens \<sigma>a = gens \<sigma>b" and "kBufferCapacity \<sigma>a = kBufferCapacity \<sigma>b"
    and "handed t \<sigma>a = handed t \<sigma>b" and "ticks \<sigma>a = ticks \<sigma>b" and "timers \<sigma>a = timers \<sigma>b"
  shows "postponed t g m x S F \<sigma>a \<sigma>' = postponed t g m x S F \<sigma>b \<sigma>'"
  using assms by (simp add: postponed_def)

lemma run_ok_bump:
  assumes "depth_of (orchs \<sigma>) m < maxdepth \<sigma>"
  shows "run_ok t g m x S F j (set_depth m (depth_of (orchs \<sigma>) m + 1) \<sigma>) \<sigma>'
       = run_ok t g m x S F (Suc j) \<sigma> \<sigma>'"
proof -
  let ?\<sigma>1 = "set_depth m (depth_of (orchs \<sigma>) m + 1) \<sigma>"
  have b: "budget ?\<sigma>1 m j = budget \<sigma> m (Suc j)"
    by (simp add: budget_def algebra_simps)
  show ?thesis
    unfolding run_ok_def b
    using burst_ok_cong[of ?\<sigma>1 \<sigma> t g m x "Seq S Drain" "gen_failure g m x S F" \<sigma>']
      postponed_cong[of ?\<sigma>1 \<sigma> t g m x S F \<sigma>']
    by (simp add: set_depth_def)
qed

text \<open>
  A call on the way to \<^verbatim>\<open>genOne_\<close>: the orchestrator defers it, or the action makes the next
  call, one call nearer to \<^verbatim>\<open>genOne_\<close>.
\<close>

lemma stage_step:
  assumes app: "\<And>N \<tau>. exec (Suc N) (App m a x s f) \<tau> = exec N (Call m a' x s' f') \<tau>"
    and nxt: "\<And>\<tau>. gen_ready \<tau> g \<Longrightarrow> allowance \<tau> g = A \<Longrightarrow>
        \<exists>\<tau>'. exec N0 (Call m a' x s' f') \<tau> = Some (Done \<tau>') \<and> run_ok t g m x S F j \<tau> \<tau>'"
    and r: "gen_ready \<sigma> g" and al: "allowance \<sigma> g = A"
    and mem: "(a, s, f) \<in> set (gen_calls g m x S F)"
  shows "\<exists>\<sigma>'. exec (Suc (Suc N0)) (Call m a x s f) \<sigma> = Some (Done \<sigma>')
           \<and> run_ok t g m x S F (Suc j) \<sigma> \<sigma>'"
proof (cases "depth_of (orchs \<sigma>) m < maxdepth \<sigma>")
  case True
  let ?\<sigma>1 = "set_depth m (depth_of (orchs \<sigma>) m + 1) \<sigma>"
  have r1: "gen_ready ?\<sigma>1 g" and a1: "allowance ?\<sigma>1 g = A"
    using r al gen_ready_cong[of ?\<sigma>1 \<sigma> g] by simp_all
  from nxt[OF r1 a1] obtain \<sigma>' where 1: "exec N0 (Call m a' x s' f') ?\<sigma>1 = Some (Done \<sigma>')"
      and 2: "run_ok t g m x S F j ?\<sigma>1 \<sigma>'"
    by blast
  have "exec (Suc (Suc N0)) (Call m a x s f) \<sigma> = Some (Done \<sigma>')"
    using True 1 app[of N0 ?\<sigma>1] by (simp add: call_def Let_def guarded_def del: exec.simps(2))
      (simp add: call_def Let_def guarded_def)
  moreover have "run_ok t g m x S F (Suc j) \<sigma> \<sigma>'"
    using 2 run_ok_bump[OF True] by simp
  ultimately show ?thesis by blast
next
  case False
  let ?\<sigma>' = "next_tick (Recall m a x s f) (set_depth m (depth_of (orchs \<sigma>) m + 1) \<sigma>)"
  have "exec (Suc (Suc N0)) (Call m a x s f) \<sigma> = Some (Done ?\<sigma>')"
    using False by (simp add: call_def Let_def)
  moreover have "\<not> budget \<sigma> m (Suc j)"
    using False by (simp add: budget_def)
  moreover have "postponed t g m x S F \<sigma> ?\<sigma>'"
  proof -
    have m1: "Recall m a x s f \<in> set (map (\<lambda>(a, s, f). Recall m a x s f) (gen_calls g m x S F))"
      using mem by (auto simp: image_iff intro!: bexI[of _ "(a, s, f)"])
    have e: "\<exists>c. c \<in> set (map (\<lambda>(a, s, f). Recall m a x s f) (gen_calls g m x S F))
          \<and> ticks ?\<sigma>' = ticks \<sigma> @ [c]"
      by (rule exI[of _ "Recall m a x s f"], rule conjI, rule m1) (simp add: next_tick_def set_depth_def)
    have "handing t (Recall m a x s f) = []"
      using mem by (auto simp: gen_calls_def)
    then have h: "handed t ?\<sigma>' = handed t \<sigma>"
      by (simp add: next_tick_def set_depth_def handed_def)
    show ?thesis
      unfolding postponed_def using e h by (simp add: next_tick_def set_depth_def)
  qed
  ultimately show ?thesis
    by (auto simp: run_ok_def)
qed


text \<open>The five calls, from \<^verbatim>\<open>genOne_\<close> back to \<^verbatim>\<open>gen_\<close>.\<close>

lemma stage4:
  assumes cont: "\<And>j \<tau> v. \<exists>\<tau>'. exec (n0 + j) (Call m (Seq S Drain) v Drain (gen_failure g m x S F)) \<tau>
          = Some (Done \<tau>')
        \<and> gens \<tau>' g = gens \<tau> g \<and> kBufferCapacity \<tau>' = kBufferCapacity \<tau>
        \<and> handed t \<tau>' = handed t \<tau> + {#v#}"
    and r: "gen_ready \<sigma> g" and al: "allowance \<sigma> g = A"
  shows "\<exists>\<sigma>'. exec (Suc (n0 + A + k)) (Call m (GenOne g) x (Seq S Drain) (gen_failure g m x S F)) \<sigma>
              = Some (Done \<sigma>')
           \<and> run_ok t g m x S F 1 \<sigma> \<sigma>'"
proof (cases "depth_of (orchs \<sigma>) m < maxdepth \<sigma>")
  case True
  let ?\<sigma>1 = "set_depth m (depth_of (orchs \<sigma>) m + 1) \<sigma>"
  have r1: "gen_ready ?\<sigma>1 g" and a1: "allowance ?\<sigma>1 g = A"
    using r al gen_ready_cong[of ?\<sigma>1 \<sigma> g] by simp_all
  from gen_run[OF cont r1, of k x] obtain \<sigma>' where
      1: "exec (n0 + A + k) (App m (GenOne g) x (Seq S Drain) (gen_failure g m x S F)) ?\<sigma>1
            = Some (Done \<sigma>')"
      and 2: "burst_ok t g m x (Seq S Drain) (gen_failure g m x S F) ?\<sigma>1 \<sigma>'"
    unfolding a1 by blast
  have b1: "budget ?\<sigma>1 m 0"
    using True by (simp add: budget_def)
  have "run_ok t g m x S F 0 ?\<sigma>1 \<sigma>'"
    using 2 b1 by (simp add: run_ok_def)
  then have "run_ok t g m x S F 1 \<sigma> \<sigma>'"
    using run_ok_bump[OF True, of t g x S F 0 \<sigma>'] by simp
  moreover have "exec (Suc (n0 + A + k)) (Call m (GenOne g) x (Seq S Drain) (gen_failure g m x S F)) \<sigma>
      = Some (Done \<sigma>')"
    using True 1 by (simp add: call_def Let_def guarded_def)
  ultimately show ?thesis by blast
next
  case False
  let ?a = "GenOne g" and ?s = "Seq S Drain" and ?f = "gen_failure g m x S F"
  let ?\<sigma>' = "next_tick (Recall m ?a x ?s ?f) (set_depth m (depth_of (orchs \<sigma>) m + 1) \<sigma>)"
  have "exec (Suc (n0 + A + k)) (Call m ?a x ?s ?f) \<sigma> = Some (Done ?\<sigma>')"
    using False by (simp add: call_def Let_def)
  moreover have "\<not> budget \<sigma> m 1"
    using False by (simp add: budget_def)
  moreover have "postponed t g m x S F \<sigma> ?\<sigma>'"
  proof -
    have m1: "Recall m ?a x ?s ?f \<in> set (map (\<lambda>(a, s, f). Recall m a x s f) (gen_calls g m x S F))"
      by (simp add: gen_calls_def)
    have e: "\<exists>c. c \<in> set (map (\<lambda>(a, s, f). Recall m a x s f) (gen_calls g m x S F))
          \<and> ticks ?\<sigma>' = ticks \<sigma> @ [c]"
      by (rule exI[of _ "Recall m ?a x ?s ?f"], rule conjI, rule m1) (simp add: next_tick_def set_depth_def)
    have h: "handed t ?\<sigma>' = handed t \<sigma>"
      by (simp add: next_tick_def set_depth_def handed_def)
    show ?thesis
      unfolding postponed_def using e h by (simp add: next_tick_def set_depth_def)
  qed
  ultimately show ?thesis
    by (auto simp: run_ok_def)
qed

lemma stage3:
  assumes cont: "\<And>j \<tau> v. \<exists>\<tau>'. exec (n0 + j) (Call m (Seq S Drain) v Drain (gen_failure g m x S F)) \<tau>
          = Some (Done \<tau>')
        \<and> gens \<tau>' g = gens \<tau> g \<and> kBufferCapacity \<tau>' = kBufferCapacity \<tau>
        \<and> handed t \<tau>' = handed t \<tau> + {#v#}"
    and r: "gen_ready \<sigma> g" and al: "allowance \<sigma> g = A"
  shows "\<exists>\<sigma>'. exec (Suc (Suc (Suc (n0 + A + k)))) (Call m (Seq (GenOne g) S) x Drain (gen_failure g m x S F)) \<sigma>
              = Some (Done \<sigma>')
           \<and> run_ok t g m x S F 2 \<sigma> \<sigma>'"
proof -
  have "\<exists>\<sigma>'. exec (Suc (Suc (Suc (n0 + A + k)))) (Call m (Seq (GenOne g) S) x Drain (gen_failure g m x S F)) \<sigma>
              = Some (Done \<sigma>')
           \<and> run_ok t g m x S F (Suc 1) \<sigma> \<sigma>'"
  proof (rule stage_step[OF _ _ r al])
    show "exec (Suc N) (App m (Seq (GenOne g) S) x Drain (gen_failure g m x S F)) \<tau>
        = exec N (Call m (GenOne g) x (Seq S Drain) (gen_failure g m x S F)) \<tau>" for N \<tau>
      by simp
    show "\<exists>\<tau>'. exec (Suc (n0 + A + k)) (Call m (GenOne g) x (Seq S Drain) (gen_failure g m x S F)) \<tau>
              = Some (Done \<tau>') \<and> run_ok t g m x S F 1 \<tau> \<tau>'"
      if "gen_ready \<tau> g" "allowance \<tau> g = A" for \<tau>
      by (rule stage4[OF cont that])
    show "(Seq (GenOne g) S, Drain, gen_failure g m x S F) \<in> set (gen_calls g m x S F)"
      by (simp add: gen_calls_def)
  qed
  then show ?thesis by (simp add: numeral_2_eq_2)
qed

lemma stage2:
  assumes cont: "\<And>j \<tau> v. \<exists>\<tau>'. exec (n0 + j) (Call m (Seq S Drain) v Drain (gen_failure g m x S F)) \<tau>
          = Some (Done \<tau>')
        \<and> gens \<tau>' g = gens \<tau> g \<and> kBufferCapacity \<tau>' = kBufferCapacity \<tau>
        \<and> handed t \<tau>' = handed t \<tau> + {#v#}"
    and r: "gen_ready \<sigma> g" and al: "allowance \<sigma> g = A"
  shows "\<exists>\<sigma>'. exec (Suc (Suc (Suc (Suc (Suc (n0 + A + k))))))
                (Call m (Catch (gen_handler g m x S F)) x (Seq (GenOne g) S) F) \<sigma>
              = Some (Done \<sigma>')
           \<and> run_ok t g m x S F 3 \<sigma> \<sigma>'"
proof -
  have "\<exists>\<sigma>'. exec (Suc (Suc (Suc (Suc (Suc (n0 + A + k))))))
                (Call m (Catch (gen_handler g m x S F)) x (Seq (GenOne g) S) F) \<sigma>
              = Some (Done \<sigma>')
           \<and> run_ok t g m x S F (Suc 2) \<sigma> \<sigma>'"
  proof (rule stage_step[OF _ _ r al])
    show "exec (Suc N) (App m (Catch (gen_handler g m x S F)) x (Seq (GenOne g) S) F) \<tau>
        = exec N (Call m (Seq (GenOne g) S) x Drain (gen_failure g m x S F)) \<tau>" for N \<tau>
      by (simp add: Let_def gen_failure_def catch_failure_def)
    show "\<exists>\<tau>'. exec (Suc (Suc (Suc (n0 + A + k)))) (Call m (Seq (GenOne g) S) x Drain (gen_failure g m x S F)) \<tau>
              = Some (Done \<tau>') \<and> run_ok t g m x S F 2 \<tau> \<tau>'"
      if "gen_ready \<tau> g" "allowance \<tau> g = A" for \<tau>
      by (rule stage3[OF cont that])
    show "(Catch (gen_handler g m x S F), Seq (GenOne g) S, F) \<in> set (gen_calls g m x S F)"
      by (simp add: gen_calls_def)
  qed
  then show ?thesis by (simp add: numeral_3_eq_3)
qed

lemma stage1:
  assumes cont: "\<And>j \<tau> v. \<exists>\<tau>'. exec (n0 + j) (Call m (Seq S Drain) v Drain (gen_failure g m x S F)) \<tau>
          = Some (Done \<tau>')
        \<and> gens \<tau>' g = gens \<tau> g \<and> kBufferCapacity \<tau>' = kBufferCapacity \<tau>
        \<and> handed t \<tau>' = handed t \<tau> + {#v#}"
    and r: "gen_ready \<sigma> g" and al: "allowance \<sigma> g = A"
  shows "\<exists>\<sigma>'. exec (Suc (Suc (Suc (Suc (Suc (Suc (Suc (n0 + A + k))))))))
                (Call m (Seq (Catch (gen_handler g m x S F)) (GenOne g)) x S F) \<sigma>
              = Some (Done \<sigma>')
           \<and> run_ok t g m x S F 4 \<sigma> \<sigma>'"
proof -
  have "\<exists>\<sigma>'. exec (Suc (Suc (Suc (Suc (Suc (Suc (Suc (n0 + A + k))))))))
                (Call m (Seq (Catch (gen_handler g m x S F)) (GenOne g)) x S F) \<sigma>
              = Some (Done \<sigma>')
           \<and> run_ok t g m x S F (Suc 3) \<sigma> \<sigma>'"
  proof (rule stage_step[OF _ _ r al])
    show "exec (Suc N) (App m (Seq (Catch (gen_handler g m x S F)) (GenOne g)) x S F) \<tau>
        = exec N (Call m (Catch (gen_handler g m x S F)) x (Seq (GenOne g) S) F) \<tau>" for N \<tau>
      by simp
    show "\<exists>\<tau>'. exec (Suc (Suc (Suc (Suc (Suc (n0 + A + k))))))
                (Call m (Catch (gen_handler g m x S F)) x (Seq (GenOne g) S) F) \<tau>
              = Some (Done \<tau>') \<and> run_ok t g m x S F 3 \<tau> \<tau>'"
      if "gen_ready \<tau> g" "allowance \<tau> g = A" for \<tau>
      by (rule stage2[OF cont that])
    show "(Seq (Catch (gen_handler g m x S F)) (GenOne g), S, F) \<in> set (gen_calls g m x S F)"
      by (simp add: gen_calls_def)
  qed
  then show ?thesis by (simp add: numeral_eq_Suc)
qed

lemma stage0:
  assumes cont: "\<And>j \<tau> v. \<exists>\<tau>'. exec (n0 + j) (Call m (Seq S Drain) v Drain (gen_failure g m x S F)) \<tau>
          = Some (Done \<tau>')
        \<and> gens \<tau>' g = gens \<tau> g \<and> kBufferCapacity \<tau>' = kBufferCapacity \<tau>
        \<and> handed t \<tau>' = handed t \<tau> + {#v#}"
    and r: "gen_ready \<sigma> g" and al: "allowance \<sigma> g = A"
  shows "\<exists>\<sigma>'. exec (Suc (Suc (Suc (Suc (Suc (Suc (Suc (Suc (Suc (n0 + A + k))))))))))
                (Call m (Gen g) x S F) \<sigma>
              = Some (Done \<sigma>')
           \<and> run_ok t g m x S F 5 \<sigma> \<sigma>'"
proof -
  have "\<exists>\<sigma>'. exec (Suc (Suc (Suc (Suc (Suc (Suc (Suc (Suc (Suc (n0 + A + k))))))))))
                (Call m (Gen g) x S F) \<sigma>
              = Some (Done \<sigma>')
           \<and> run_ok t g m x S F (Suc 4) \<sigma> \<sigma>'"
  proof (rule stage_step[OF _ _ r al])
    show "exec (Suc N) (App m (Gen g) x S F) \<tau>
        = exec N (Call m (Seq (Catch (gen_handler g m x S F)) (GenOne g)) x S F) \<tau>" for N \<tau>
      by (simp add: gen_handler_def)
    show "\<exists>\<tau>'. exec (Suc (Suc (Suc (Suc (Suc (Suc (Suc (n0 + A + k))))))))
                (Call m (Seq (Catch (gen_handler g m x S F)) (GenOne g)) x S F) \<tau>
              = Some (Done \<tau>') \<and> run_ok t g m x S F 4 \<tau> \<tau>'"
      if "gen_ready \<tau> g" "allowance \<tau> g = A" for \<tau>
      by (rule stage1[OF cont that])
    show "(Gen g, S, F) \<in> set (gen_calls g m x S F)"
      by (simp add: gen_calls_def)
  qed
  then show ?thesis by (simp add: numeral_eq_Suc)
qed

lemma gen_stage:
  assumes cont: "\<And>j \<tau> v. \<exists>\<tau>'. exec (n0 + j) (Call m (Seq S Drain) v Drain (gen_failure g m x S F)) \<tau>
          = Some (Done \<tau>')
        \<and> gens \<tau>' g = gens \<tau> g \<and> kBufferCapacity \<tau>' = kBufferCapacity \<tau>
        \<and> handed t \<tau>' = handed t \<tau> + {#v#}"
    and r: "gen_ready \<sigma> g" and al: "allowance \<sigma> g = A"
    and i: "i < 5" and c: "gen_calls g m x S F ! i = (a, s, f)"
  shows "\<exists>\<sigma>'. exec (n0 + A + 10 + k) (Call m a x s f) \<sigma> = Some (Done \<sigma>')
           \<and> run_ok t g m x S F (5 - i) \<sigma> \<sigma>'"
proof -
  from i consider "i = 0" | "i = 1" | "i = 2" | "i = 3" | "i = 4"
    by linarith
  then show ?thesis
  proof cases
    case 1
    then show ?thesis
      using stage0[OF cont r al, where k = "k + 1"] c
      by (auto simp: gen_calls_def numeral_eq_Suc)
  next
    case 2
    then show ?thesis
      using stage1[OF cont r al, where k = "k + 3"] c
      by (auto simp: gen_calls_def numeral_eq_Suc)
  next
    case 3
    then show ?thesis
      using stage2[OF cont r al, where k = "k + 5"] c
      by (auto simp: gen_calls_def numeral_eq_Suc)
  next
    case 4
    then show ?thesis
      using stage3[OF cont r al, where k = "k + 7"] c
      by (auto simp: gen_calls_def numeral_eq_Suc)
  next
    case 5
    then show ?thesis
      using stage4[OF cont r al, where k = "k + 9"] c
      by (auto simp: gen_calls_def numeral_eq_Suc)
  qed
qed

text \<open>
  Continuations that hand their input to the recorder and leave the generators alone,
  at every depth of the orchestrator: the recorder itself, and the recorder as \<^verbatim>\<open>gen_\<close>
  passes it to \<^verbatim>\<open>genOne_\<close>, which is \<^verbatim>\<open>seq(success, M.drain)\<close>.
\<close>

lemma probe_hands:
  "\<exists>\<tau>'. exec (4 + j) (Call m (Probe t) v Drain f) \<tau> = Some (Done \<tau>')
     \<and> gens \<tau>' g = gens \<tau> g \<and> kBufferCapacity \<tau>' = kBufferCapacity \<tau>
     \<and> handed t \<tau>' = handed t \<tau> + {#v#}"
  using call_Probe[of j m t v f \<tau>]
  by (simp add: add.commute next_tick_def handed_def)

lemma seq_probe_hands:
  "\<exists>\<tau>'. exec (8 + j) (Call m (Seq (Probe t) Drain) v Drain f) \<tau> = Some (Done \<tau>')
     \<and> gens \<tau>' g = gens \<tau> g \<and> kBufferCapacity \<tau>' = kBufferCapacity \<tau>
     \<and> handed t \<tau>' = handed t \<tau> + {#v#}"
  by (simp add: numeral_eq_Suc call_def Let_def guarded_def set_depth_def next_tick_def handed_def)




text \<open>
  C8. Take an orchestrator whose capacity is at least one, and a generator that is ready
  for a run of \<^verbatim>\<open>genOne_\<close>: not paused, its counter between 0 and the capacity, as \<^verbatim>\<open>IO.gen\<close>
  makes it and as every run leaves it. Let the success continuation, in the form
  \<^verbatim>\<open>seq(success, M.drain)\<close> in which \<^verbatim>\<open>genOne_\<close> gets it, hand its input to a recorder and
  return without touching the generator, whatever the depth of the orchestrator. Take any
  of the five calls that lead from \<^verbatim>\<open>gen_\<close> to \<^verbatim>\<open>genOne_\<close>: the call of \<^verbatim>\<open>gen_\<close> itself, the
  call of \<^verbatim>\<open>genOne_\<close> as \<^verbatim>\<open>M.delay\<close> queues it, and those between, each as the orchestrator
  makes it or as the task in which the orchestrator deferred it. Then the call returns.
  When the orchestrator has the depth for the calls that are left, \<^verbatim>\<open>genOne_\<close> runs: it
  hands on the values of the producer up to the first \<^verbatim>\<open>undefined\<close>, never more than the
  capacity of them, leaves the generator ready for the next run and, when it has used
  up its allowance, has queued \<^verbatim>\<open>genOne_\<close> with \<^verbatim>\<open>setTimeout\<close> (a positive \<^verbatim>\<open>delay_ms\<close>) or
  \<^verbatim>\<open>nextTick\<close> as the last task. When the orchestrator has not the depth, one of the five
  calls is queued as a task and no value is handed on.
\<close>

theorem gen_burst_bounded:
  assumes "\<And>j \<tau> v. \<exists>\<tau>'. exec (n0 + j) (Call m (Seq S Drain) v Drain (gen_failure g m x S F)) \<tau>
          = Some (Done \<tau>')
        \<and> gens \<tau>' g = gens \<tau> g \<and> kBufferCapacity \<tau>' = kBufferCapacity \<tau>
        \<and> handed t \<tau>' = handed t \<tau> + {#v#}"
    and "gen_ready \<sigma> g"
    and "i < 5" and "gen_calls g m x S F ! i = (a, s, f)"
  shows "(\<exists>\<sigma>'. exec (n0 + allowance \<sigma> g + 10 + k) (Call m a x s f) \<sigma> = Some (Done \<sigma>')
            \<and> (if budget \<sigma> m (5 - i)
                then burst_ok t g m x (Seq S Drain) (gen_failure g m x S F) \<sigma> \<sigma>'
                else postponed t g m x S F \<sigma> \<sigma>'))
       \<and> (\<exists>\<sigma>'. exec (Suc (n0 + allowance \<sigma> g + 10 + k)) (Recall m a x s f) \<sigma> = Some (Done \<sigma>')
            \<and> (if budget (set_depth m (min 0 (maxdepth \<sigma> - 1)) \<sigma>) m (5 - i)
                then burst_ok t g m x (Seq S Drain) (gen_failure g m x S F) \<sigma> \<sigma>'
                else postponed t g m x S F \<sigma> \<sigma>'))"
proof -
  let ?\<sigma>0 = "set_depth m (min 0 (maxdepth \<sigma> - 1)) \<sigma>"
  have 1: "\<exists>\<sigma>'. exec (n0 + allowance \<sigma> g + 10 + k) (Call m a x s f) \<sigma> = Some (Done \<sigma>')
            \<and> run_ok t g m x S F (5 - i) \<sigma> \<sigma>'"
    by (rule gen_stage[OF assms(1,2) refl assms(3,4)])
  have r0: "gen_ready ?\<sigma>0 g" and a0: "allowance ?\<sigma>0 g = allowance \<sigma> g"
    using assms(2) gen_ready_cong[of ?\<sigma>0 \<sigma> g] by simp_all
  from gen_stage[OF assms(1) r0 a0 assms(3,4), of k] obtain \<sigma>' where
      2: "exec (n0 + allowance \<sigma> g + 10 + k) (Call m a x s f) ?\<sigma>0 = Some (Done \<sigma>')"
      and 3: "run_ok t g m x S F (5 - i) ?\<sigma>0 \<sigma>'"
    by blast
  have "exec (Suc N) (Recall m a x s f) \<sigma> = exec N (Call m a x s f) ?\<sigma>0" for N
    by (simp add: recall_def)
  then have 4: "exec (Suc (n0 + allowance \<sigma> g + 10 + k)) (Recall m a x s f) \<sigma> = Some (Done \<sigma>')"
    using 2 by (simp only:)
  have 5: "if budget ?\<sigma>0 m (5 - i)
           then burst_ok t g m x (Seq S Drain) (gen_failure g m x S F) \<sigma> \<sigma>'
           else postponed t g m x S F \<sigma> \<sigma>'"
  proof -
    have bc: "burst_ok t g m x (Seq S Drain) (gen_failure g m x S F) ?\<sigma>0 \<sigma>'
        = burst_ok t g m x (Seq S Drain) (gen_failure g m x S F) \<sigma> \<sigma>'"
      by (rule burst_ok_cong) simp_all
    have pc: "postponed t g m x S F ?\<sigma>0 \<sigma>' = postponed t g m x S F \<sigma> \<sigma>'"
      by (rule postponed_cong) (simp_all add: set_depth_def)
    show ?thesis
      using 3 unfolding run_ok_def bc pc .
  qed
  show ?thesis
    using 1 4 5 unfolding run_ok_def by blast
qed

theorem gen_burst_bounded_witness:
  "(\<exists>\<sigma>'. exec (8 + 8 + 10 + 0) (Call 0 (Gen 0) Null (Probe ''out'') Drain)
            (ExM\<lparr>gens := (\<lambda>_. \<lparr>paused = False, genCount = 0, delay_ms = 0,
                              producer = (\<lambda>i. Num (int i)), produced = 0\<rparr>)\<rparr>) = Some (Done \<sigma>')
     \<and> handed ''out'' \<sigma>' = mset (map (\<lambda>i. Num (int i)) [0..<8])
     \<and> produced (gens \<sigma>' 0) = 8 \<and> genCount (gens \<sigma>' 0) = 0
     \<and> ticks \<sigma>' \<noteq> []
     \<and> last (ticks \<sigma>') = Call 0 (GenOne 0) Null (Seq (Probe ''out'') Drain)
                             (gen_failure 0 0 Null (Probe ''out'') Drain))
   \<and> map_option (\<lambda>\<sigma>. (map snd (trace \<sigma>), length (ticks \<sigma>)))
       (run_from 100 0 (Call 0 (Gen 0) Null (Probe ''out'') Drain)
          (ExM\<lparr>gens := (\<lambda>_. \<lparr>paused = False, genCount = 0, delay_ms = 0,
                  producer = (\<lambda>i. Num (int i)), produced = 0\<rparr>)\<rparr>))
     = Some ([Num 0, Num 1, Num 2, Num 3, Num 4, Num 5, Num 6, Num 7], 1)
   \<and> map_option (\<lambda>\<sigma>. (length (trace \<sigma>), length (ticks \<sigma>)))
       (run_from 100 1 (Call 0 (Gen 0) Null (Probe ''out'') Drain)
          (ExM\<lparr>gens := (\<lambda>_. \<lparr>paused = False, genCount = 0, delay_ms = 0,
                  producer = (\<lambda>i. Num (int i)), produced = 0\<rparr>)\<rparr>))
     = Some (11, 6)
   \<and> map_option (\<lambda>\<sigma>. (map snd (trace \<sigma>), length (ticks \<sigma>)))
       (run_from 100 7 (Call 0 (Gen 0) Null (Probe ''out'') Drain)
          (ExM\<lparr>gens := (\<lambda>_. \<lparr>paused = False, genCount = 0, delay_ms = 0,
                  producer = (\<lambda>i. Num (int i)), produced = 0\<rparr>)\<rparr>))
     = Some ([Num 0, Num 1, Num 2, Num 3, Num 4, Num 5, Num 6, Num 7, Num 8, Num 9, Num 10,
              Num 11, Num 12, Num 13, Num 14, Num 15, Num 16, Num 17, Num 18, Num 19, Num 20,
              Num 21, Num 22, Num 23], 1)"
proof -
  let ?\<sigma> = "ExM\<lparr>gens := (\<lambda>_. \<lparr>paused = False, genCount = 0, delay_ms = 0,
                              producer = (\<lambda>i. Num (int i)), produced = 0\<rparr>)\<rparr>"
  let ?f = "gen_failure 0 0 Null (Probe ''out'') Drain"
  have r: "gen_ready ?\<sigma> 0"
    by (simp add: gen_ready_def ExM_def)
  have a: "allowance ?\<sigma> 0 = 8"
    by (simp add: allowance_def ExM_def)
  have b: "burst (\<lambda>i. Num (int i)) 0 8 = 8"
    by (simp add: numeral_eq_Suc)
  have h: "handed ''out'' ExM = {#}"
    by (simp add: handed_def ExM_def)
  have c: "gen_calls 0 0 Null (Probe ''out'') Drain ! 0 = (Gen 0, Probe ''out'', Drain)"
    by (simp add: gen_calls_def)
  have d: "budget ?\<sigma> 0 (5 - 0)"
    by (simp add: budget_def ExM_def depth_of.simps)
  have i5: "(0::nat) < 5"
    by simp
  have cont: "\<exists>\<tau>'. exec (8 + j) (Call 0 (Seq (Probe ''out'') Drain) v Drain ?f) \<tau> = Some (Done \<tau>')
        \<and> gens \<tau>' 0 = gens \<tau> 0 \<and> kBufferCapacity \<tau>' = kBufferCapacity \<tau>
        \<and> handed ''out'' \<tau>' = handed ''out'' \<tau> + {#v#}" for j \<tau> v
    by (rule seq_probe_hands)
  from gen_burst_bounded [OF cont r i5 c, where k = 0] d
  obtain \<sigma>' where 1: "exec (8 + allowance ?\<sigma> 0 + 10 + 0) (Call 0 (Gen 0) Null (Probe ''out'') Drain) ?\<sigma>
        = Some (Done \<sigma>')"
    and 2: "burst_ok ''out'' 0 0 Null (Seq (Probe ''out'') Drain) ?f ?\<sigma> \<sigma>'"
    by auto
  from 2 have 3: "handed ''out'' \<sigma>' = mset (map (\<lambda>i. Num (int i)) [0..<8])"
      "produced (gens \<sigma>' 0) = 8" "genCount (gens \<sigma>' 0) = 0"
      "deferred_genOne 0 0 Null (Seq (Probe ''out'') Drain) ?f 0 \<sigma>'"
    unfolding burst_ok_def Let_def a by (simp_all add: b h)
  have 4: "\<exists>\<sigma>'. exec (8 + 8 + 10 + 0) (Call 0 (Gen 0) Null (Probe ''out'') Drain) ?\<sigma> = Some (Done \<sigma>')
     \<and> handed ''out'' \<sigma>' = mset (map (\<lambda>i. Num (int i)) [0..<8])
     \<and> produced (gens \<sigma>' 0) = 8 \<and> genCount (gens \<sigma>' 0) = 0
     \<and> ticks \<sigma>' \<noteq> []
     \<and> last (ticks \<sigma>') = Call 0 (GenOne 0) Null (Seq (Probe ''out'') Drain) ?f"
    using 1 3 unfolding a by (intro exI[of _ \<sigma>']) (simp add: deferred_genOne_def)
  have 5: "map_option (\<lambda>\<sigma>. (map snd (trace \<sigma>), length (ticks \<sigma>)))
       (run_from 100 0 (Call 0 (Gen 0) Null (Probe ''out'') Drain) ?\<sigma>)
     = Some ([Num 0, Num 1, Num 2, Num 3, Num 4, Num 5, Num 6, Num 7], 1)"
    by code_simp
  have 6: "map_option (\<lambda>\<sigma>. (length (trace \<sigma>), length (ticks \<sigma>)))
       (run_from 100 1 (Call 0 (Gen 0) Null (Probe ''out'') Drain) ?\<sigma>)
     = Some (11, 6)"
    by code_simp
  have 7: "map_option (\<lambda>\<sigma>. (map snd (trace \<sigma>), length (ticks \<sigma>)))
       (run_from 100 7 (Call 0 (Gen 0) Null (Probe ''out'') Drain) ?\<sigma>)
     = Some ([Num 0, Num 1, Num 2, Num 3, Num 4, Num 5, Num 6, Num 7, Num 8, Num 9, Num 10,
              Num 11, Num 12, Num 13, Num 14, Num 15, Num 16, Num 17, Num 18, Num 19, Num 20,
              Num 21, Num 22, Num 23], 1)"
    by code_simp
  show ?thesis
    using 4 5 6 7 by blast
qed

text \<open>
  With the capacity 0 the counter starts below 0 and never comes back to it: the run
  goes on until the producer ends, here after ten values, and nothing is deferred.
\<close>

theorem gen_burst_counterexample:
  "map_option (\<lambda>\<sigma>. (map snd (trace \<sigma>), ticks \<sigma>, timers \<sigma>))
     (run_from 100 0 (Call 0 (Gen 0) Null (Probe ''out'') Drain)
        (ExM\<lparr>kBufferCapacity := 0,
             gens := (\<lambda>_. \<lparr>paused = False, genCount = 0, delay_ms = 0,
                producer = (\<lambda>i. if i < 10 then Num (int i) else Undefined), produced = 0\<rparr>)\<rparr>))
   = Some ([Num 0, Num 1, Num 2, Num 3, Num 4, Num 5, Num 6, Num 7, Num 8, Num 9], [], [])"
  by code_simp

section \<open>Claims about fork\<close>

lemma array_set_length: "length (array_set xs (Num (int j)) v) = max (length xs) (Suc j)"
  by (auto simp: array_set_def)

lemma array_set_same: "array_set xs (Num (int j)) v ! j = v"
  by (auto simp: array_set_def nth_append)

lemma array_set_other: "i \<noteq> j \<Longrightarrow> i < length xs \<Longrightarrow> array_set xs (Num (int j)) v ! i = xs ! i"
  by (auto simp: array_set_def nth_append)

lemma foldl_absorb_counts:
  "countUp (foldl absorb fr rs) = countUp fr + length (filter is_success rs)"
  "errUp (foldl absorb fr rs) = errUp fr + length (filter (\<lambda>r. \<not> is_success r) rs)"
  "fork_M (foldl absorb fr rs) = fork_M fr"
  "fork_success (foldl absorb fr rs) = fork_success fr"
  "fork_failure (foldl absorb fr rs) = fork_failure fr"
  "fork_length (foldl absorb fr rs) = fork_length fr"
  by (induction rs arbitrary: fr; simp add: absorb_def)+

lemma foldl_absorb_total:
  "countUp (foldl absorb fr rs) + errUp (foldl absorb fr rs) = countUp fr + errUp fr + length rs"
  by (induction rs arbitrary: fr) (auto simp: absorb_def)

lemma results_foldl:
  assumes "distinct (map index_of rs)" and "results fr = []" and "\<forall>r \<in> set rs. index_of r < n"
  shows "length (results (foldl absorb fr rs)) \<le> n
       \<and> (\<forall>r \<in> set rs. index_of r < length (results (foldl absorb fr rs))
             \<and> results (foldl absorb fr rs) ! index_of r = result_of r)"
  using assms(1,3)
proof (induction rs rule: rev_induct)
  case Nil
  show ?case by (simp add: assms(2))
next
  case (snoc r rs)
  let ?A = "results (foldl absorb fr rs)"
  have d: "distinct (map index_of rs)" and nin: "index_of r \<notin> index_of ` set rs"
    and b: "\<forall>r \<in> set rs. index_of r < n" and br: "index_of r < n"
    using snoc.prems by auto
  have ih: "length ?A \<le> n"
    "\<forall>q \<in> set rs. index_of q < length ?A \<and> ?A ! index_of q = result_of q"
    using snoc.IH[OF d b] by auto
  have res: "results (foldl absorb fr (rs @ [r])) = array_set ?A (Num (int (index_of r))) (result_of r)"
    by (simp add: absorb_def)
  have len: "length (results (foldl absorb fr (rs @ [r]))) = max (length ?A) (Suc (index_of r))"
    unfolding res by (rule array_set_length)
  have "\<forall>q \<in> set (rs @ [r]). index_of q < length (results (foldl absorb fr (rs @ [r])))
          \<and> results (foldl absorb fr (rs @ [r])) ! index_of q = result_of q"
  proof
    fix q assume "q \<in> set (rs @ [r])"
    then consider "q = r" | "q \<in> set rs" by auto
    then show "index_of q < length (results (foldl absorb fr (rs @ [r])))
          \<and> results (foldl absorb fr (rs @ [r])) ! index_of q = result_of q"
    proof cases
      case 1
      then show ?thesis unfolding len unfolding res by (simp add: array_set_same)
    next
      case 2
      then have "index_of q \<in> index_of ` set rs" by (rule imageI)
      with nin have ne: "index_of q \<noteq> index_of r" by metis
      have lt: "index_of q < length ?A" and v: "?A ! index_of q = result_of q"
        using 2 ih(2) by auto
      show ?thesis
        unfolding len unfolding res using ne lt v by (simp add: array_set_other less_max_iff_disj)
    qed
  qed
  moreover have "length (results (foldl absorb fr (rs @ [r]))) \<le> n"
    unfolding len using ih(1) br by simp
  ultimately show ?case by blast
qed

lemma results_permutation:
  assumes "mset (map index_of rs) = mset [0..<n]" and "results fr = []"
  shows "results (foldl absorb fr rs) = map (result_at rs) [0..<n]"
proof -
  have d: "distinct (map index_of rs)"
    using assms(1) by (metis distinct_upt mset_eq_imp_distinct_iff)
  have s: "index_of ` set rs = {0..<n}"
    using assms(1) by (metis mset_eq_setD set_map set_upt)
  then have b: "\<forall>r \<in> set rs. index_of r < n"
    by auto
  note r = results_foldl[OF d assms(2) b]
  have "n \<le> length (results (foldl absorb fr rs))"
  proof (cases n)
    case 0
    then show ?thesis by simp
  next
    case (Suc k)
    then have "k \<in> index_of ` set rs" using s by simp
    then obtain q where "q \<in> set rs" "index_of q = k" by auto
    then have "k < length (results (foldl absorb fr rs))" using r by auto
    then show ?thesis using Suc by simp
  qed
  then have len: "length (results (foldl absorb fr rs)) = n"
    using r by simp
  show ?thesis
  proof (rule nth_equalityI)
    show "length (results (foldl absorb fr rs)) = length (map (result_at rs) [0..<n])"
      using len by simp
    fix i assume "i < length (results (foldl absorb fr rs))"
    then have i: "i < n" using len by simp
    then have "i \<in> index_of ` set rs" using s by simp
    then obtain q where q: "q \<in> set rs" "index_of q = i"
      by auto
    have "find (\<lambda>r. index_of r = i) rs = Some q"
    proof -
      obtain q' where f: "find (\<lambda>r. index_of r = i) rs = Some q'"
        using q by (cases "find (\<lambda>r. index_of r = i) rs") (auto simp: find_None_iff)
      then have "q' \<in> set rs" "index_of q' = i"
        by (auto simp: find_Some_iff)
      then have "q' = q"
        using d q by (metis distinct_map inj_on_def)
      then show ?thesis using f by simp
    qed
    then show "results (foldl absorb fr rs) ! i = map (result_at rs) [0..<n] ! i"
      using r q i by (auto simp: result_at_def)
  qed
qed


lemma del_put_index [simp]: "del_prop k (put_prop k v ps) = del_prop k ps"
  by (induction ps) (auto simp: del_prop_def put_prop_def)

lemma map_of_put_prop [simp]: "map_of (put_prop k v ps) k = Some v"
  by (simp add: put_prop_def)

lemma absorb_fields [simp]:
  "fork_M (absorb fr r) = fork_M fr"
  "fork_success (absorb fr r) = fork_success fr"
  "fork_failure (absorb fr r) = fork_failure fr"
  "fork_length (absorb fr r) = fork_length fr"
  by (simp_all add: absorb_def)

lemma named_set_index [simp]: "named_set ps (Num (int j)) v = ps"
  by (simp add: named_set_def)

lemma absorb_named [simp]: "named (absorb fr r) = named fr"
  by (simp add: absorb_def)

lemma foldl_absorb_named [simp]: "named (foldl absorb fr rs) = named fr"
  by (induction rs arbitrary: fr) simp_all

text \<open>One report: \<^verbatim>\<open>join\<close> or \<^verbatim>\<open>errjoin\<close> updates the variables and, when as many reports
  have come as there are branches, calls a continuation of the fork.\<close>

lemma report_step:
  assumes "well_formed r"
  shows "exec (Suc k) (report_cmd fid mb r) \<sigma>
       = (let fr = absorb (forks \<sigma> fid) r;
              \<sigma>' = \<sigma>\<lparr>forks := (forks \<sigma>)(fid := fr)\<rparr>
          in if errUp fr + countUp fr = fork_length fr then
               (if countUp fr \<noteq> 0
                then exec k (Call (fork_M fr) (fork_success fr) (Arr (results fr) (named fr)) Drain
                               (fork_failure fr)) \<sigma>'
                else exec k (Call (fork_M fr) (fork_failure fr) (result_of r) Drain Drain) \<sigma>')
             else Some (Done \<sigma>'))"
proof (cases r)
  case (Succeeded i v)
  then show ?thesis
    by (simp add: Let_def absorb_def prop_of_def)
next
  case (Failed i e)
  then obtain m0 e0 x0 s0 f0 ps where e: "e = IOError m0 e0 x0 s0 f0 ps"
    using assms by (cases e) auto
  show ?thesis
    unfolding Failed e by (simp add: Let_def absorb_def)
qed

lemma absorbed_Cons: "absorbed fid (r # rs) \<sigma> = absorbed fid rs (absorbed fid [r] \<sigma>)"
  by (simp add: absorbed_def)

lemma absorbed_fields [simp]:
  "ticks (absorbed fid rs \<sigma>) = ticks \<sigma>"
  "timers (absorbed fid rs \<sigma>) = timers \<sigma>"
  "trace (absorbed fid rs \<sigma>) = trace \<sigma>"
  "orchs (absorbed fid rs \<sigma>) = orchs \<sigma>"
  "forks (absorbed fid rs \<sigma>) fid = foldl absorb (forks \<sigma> fid) rs"
  by (simp_all add: absorbed_def)

lemma reports_prefix:
  assumes "\<forall>r \<in> set rs. well_formed r"
    and "countUp (forks \<sigma> fid) + errUp (forks \<sigma> fid) + length rs < fork_length (forks \<sigma> fid)"
  shows "reports_run (Suc k) fid mb rs \<sigma> = Some (Done (absorbed fid rs \<sigma>))"
  using assms
proof (induction rs arbitrary: \<sigma>)
  case Nil
  show ?case by (simp add: absorbed_def)
next
  case (Cons r rs)
  let ?\<sigma>1 = "absorbed fid [r] \<sigma>"
  have w: "well_formed r" using Cons.prems by simp
  have t: "countUp (absorb (forks \<sigma> fid) r) + errUp (absorb (forks \<sigma> fid) r)
       = countUp (forks \<sigma> fid) + errUp (forks \<sigma> fid) + 1"
    by (simp add: absorb_def)
  have 1: "exec (Suc k) (report_cmd fid mb r) \<sigma> = Some (Done ?\<sigma>1)"
    unfolding report_step[OF w] using Cons.prems(2) t
    by (simp add: Let_def absorbed_def add.commute)
  have 2: "reports_run (Suc k) fid mb rs ?\<sigma>1 = Some (Done (absorbed fid rs ?\<sigma>1))"
  proof (rule Cons.IH)
    show "\<forall>r \<in> set rs. well_formed r" using Cons.prems by simp
    show "countUp (forks ?\<sigma>1 fid) + errUp (forks ?\<sigma>1 fid) + length rs < fork_length (forks ?\<sigma>1 fid)"
      using Cons.prems(2) t by simp
  qed
  show ?case
    using 1 2 by (simp add: absorbed_Cons[symmetric])
qed

text \<open>\<^verbatim>\<open>fork_\<close> itself: the variables, and one task for each branch.\<close>

lemma fork_branches_ticks:
  "ticks (fork_branches m x fid i as \<sigma>) = ticks \<sigma> @ branch_tasks (next_orch \<sigma>) x fid i as
   \<and> forks (fork_branches m x fid i as \<sigma>) = forks \<sigma>
   \<and> trace (fork_branches m x fid i as \<sigma>) = trace \<sigma>
   \<and> timers (fork_branches m x fid i as \<sigma>) = timers \<sigma>
   \<and> next_orch (fork_branches m x fid i as \<sigma>) = next_orch \<sigma> + length as"
  by (induction as arbitrary: i \<sigma>) (simp_all add: Let_def delay_def next_tick_def)

lemma fork_starts:
  "\<exists>\<sigma>'. exec (Suc k) (App m (Fork as) x S F) \<sigma> = Some (Done \<sigma>')
     \<and> forks \<sigma>' (next_fork \<sigma>) = \<lparr>fork_M = m, fork_success = S, fork_failure = F,
          fork_length = length as, countUp = 0, errUp = 0, results = [], named = []\<rparr>
     \<and> ticks \<sigma>' = ticks \<sigma> @ branch_tasks (next_orch \<sigma>) x (next_fork \<sigma>) 0 as
     \<and> timers \<sigma>' = timers \<sigma>
     \<and> trace \<sigma>' = trace \<sigma>"
  by (simp add: Let_def fork_branches_ticks)

text \<open>The reports of all the branches, on the variables that \<^verbatim>\<open>fork_\<close> has created.\<close>

lemma reports_complete:
  assumes "forks \<sigma> fid = \<lparr>fork_M = m, fork_success = S, fork_failure = F, fork_length = n,
             countUp = 0, errUp = 0, results = [], named = []\<rparr>"
    and "mset (map index_of (rs @ [r])) = mset [0..<n]"
    and "\<forall>q \<in> set (rs @ [r]). well_formed q"
  shows "reports_run (Suc k) fid mb rs \<sigma> = Some (Done (absorbed fid rs \<sigma>))
       \<and> exec (Suc k) (report_cmd fid mb r) (absorbed fid rs \<sigma>)
           = (if \<exists>q \<in> set (rs @ [r]). is_success q
              then exec k (Call m S (Arr (map (result_at (rs @ [r])) [0..<n]) []) Drain F)
                     (absorbed fid (rs @ [r]) \<sigma>)
              else exec k (Call m F (result_of r) Drain Drain) (absorbed fid (rs @ [r]) \<sigma>))
       \<and> (\<forall>q \<in> set (rs @ [r]). map (result_at (rs @ [r])) [0..<n] ! index_of q = result_of q)"
proof -
  let ?start = "forks \<sigma> fid"
  have len: "length (rs @ [r]) = n"
    using assms(2) by (metis length_map length_upt minus_nat.diff_0 size_mset)
  have w: "\<forall>q \<in> set rs. well_formed q" and wr: "well_formed r"
    using assms(3) by auto
  have pre: "reports_run (Suc k) fid mb rs \<sigma> = Some (Done (absorbed fid rs \<sigma>))"
    by (rule reports_prefix[OF w]) (use len assms(1) in simp)
  let ?fr = "foldl absorb ?start (rs @ [r])"
  have res: "results ?fr = map (result_at (rs @ [r])) [0..<n]"
    by (rule results_permutation[OF assms(2)]) (simp add: assms(1))
  have nam: "named ?fr = []"
    using assms(1) by simp
  have tot: "errUp ?fr + countUp ?fr = fork_length ?fr"
    using foldl_absorb_total[of ?start "rs @ [r]"] len assms(1)
    by (simp add: foldl_absorb_counts)
  have cu: "countUp ?fr \<noteq> 0 \<longleftrightarrow> (\<exists>q \<in> set (rs @ [r]). is_success q)"
    unfolding foldl_absorb_counts using assms(1) by (simp add: filter_empty_conv)
  have fr1: "absorb (forks (absorbed fid rs \<sigma>) fid) r = ?fr"
    by simp
  have st: "(absorbed fid rs \<sigma>)\<lparr>forks := (forks (absorbed fid rs \<sigma>))(fid := ?fr)\<rparr>
        = absorbed fid (rs @ [r]) \<sigma>"
    by (simp add: absorbed_def)
  have fin: "exec (Suc k) (report_cmd fid mb r) (absorbed fid rs \<sigma>)
           = (if \<exists>q \<in> set (rs @ [r]). is_success q
              then exec k (Call m S (Arr (map (result_at (rs @ [r])) [0..<n]) []) Drain F)
                     (absorbed fid (rs @ [r]) \<sigma>)
              else exec k (Call m F (result_of r) Drain Drain) (absorbed fid (rs @ [r]) \<sigma>))"
    unfolding report_step[OF wr] Let_def fr1 st
    using tot cu res nam assms(1) by (simp add: foldl_absorb_counts del: foldl_append)
  have pos: "\<forall>q \<in> set (rs @ [r]). map (result_at (rs @ [r])) [0..<n] ! index_of q = result_of q"
  proof -
    have d: "distinct (map index_of (rs @ [r]))"
      using assms(2) by (metis distinct_upt mset_eq_imp_distinct_iff)
    have s: "index_of ` set (rs @ [r]) = {0..<n}"
      using assms(2) by (metis mset_eq_setD set_map set_upt)
    then have b: "\<forall>q \<in> set (rs @ [r]). index_of q < n"
      by auto
    have "results ?start = []" using assms(1) by simp
    from results_foldl[OF d this b] show ?thesis
      unfolding res by blast
  qed
  show ?thesis
    using pre fin pos by simp
qed

text \<open>
  How a branch comes to report. Its task calls its action with the continuations
  \<open>branch_success\<close> and \<open>branch_failure\<close>; calling the first with a value applies \<^verbatim>\<open>join\<close>
  to the value tagged with the index of the branch, calling the second with an IOError
  applies \<^verbatim>\<open>errjoin\<close> to the error with the index set. All this within the depth budget
  of the orchestrator of the branch.
\<close>

lemma branch_task_runs:
  assumes "budget \<sigma> mi 2"
  shows "exec (n + 5) (Call mi (chain [a, MapTag i]) x (ForkJoin fid) (branch_failure i fid)) \<sigma>
       = exec (Suc n) (Call mi a x (branch_success a i fid) (branch_failure i fid)) (bump mi 2 \<sigma>)"
  using assms
  by (simp add: chain_def chain_iter_def branch_success_def run_simps)

lemma branch_success_reports:
  assumes "budget \<sigma> mi 2"
  shows "exec (n + 5) (Call mi (branch_success a i fid) v s f) \<sigma>
       = exec (Suc n) (Call mi (ForkJoin fid) (Obj [(''index'', Num (int i)), (''value'', v)]) Drain f)
           (bump mi 2 \<sigma>)"
  using assms
  by (simp add: chain_iter_def branch_success_def run_simps)

lemma branch_failure_reports:
  assumes "budget \<sigma> mi 1"
  shows "exec (n + 3) (Call mi (branch_failure i fid) (IOError m0 e0 x0 s0 f0 ps) s f) \<sigma>
       = exec (Suc n) (Call mi (ForkErrJoin fid) (with_index i (IOError m0 e0 x0 s0 f0 ps)) s f)
           (bump mi 1 \<sigma>)"
  using assms
  by (simp add: branch_failure_def run_simps)

lemma join_ignores_continuations:
  "exec (Suc n) (App mi (ForkJoin fid) x s f) \<sigma> = exec (Suc n) (App mj (ForkJoin fid) x Drain Drain) \<sigma>"
  "exec (Suc n) (App mi (ForkErrJoin fid) x s f) \<sigma> = exec (Suc n) (App mj (ForkErrJoin fid) x Drain Drain) \<sigma>"
  by simp_all


text \<open>
  C5. \<^verbatim>\<open>fork_\<close> on \<open>n\<close> actions creates its variables and queues one task for each branch,
  on an orchestrator of its own and with the continuations that tag a result with the
  index of the branch; it delivers nothing itself. Let then the branches report one after
  the other, each branch once, in any order: a success through \<^verbatim>\<open>join\<close> with its index and
  value, a failure through \<^verbatim>\<open>errjoin\<close> with an \<^verbatim>\<open>IO.Error\<close> that carries its index (so
  \<open>n\<close> is at least one). Then the reports before the last one only update the variables:
  the event queue, the timers and the trace stay as they are. The last report calls
  \<^verbatim>\<open>success\<close> with an array of length \<open>n\<close> that holds at position \<open>i\<close> the result of branch
  \<open>i\<close> (the value, or the error without its index), unless all the reports are failures:
  then it calls \<^verbatim>\<open>failure\<close> with the error of the last report.
\<close>

theorem fork_collects_results:
  assumes "mset (map index_of (rs @ [r])) = mset [0..<length as]"
    and "\<forall>q \<in> set (rs @ [r]). well_formed q"
  shows "\<exists>\<sigma>1. exec (Suc k) (App m (Fork as) x S F) \<sigma> = Some (Done \<sigma>1)
       \<and> ticks \<sigma>1 = ticks \<sigma> @ branch_tasks (next_orch \<sigma>) x (next_fork \<sigma>) 0 as
       \<and> timers \<sigma>1 = timers \<sigma> \<and> trace \<sigma>1 = trace \<sigma>
       \<and> (\<forall>\<sigma>2. forks \<sigma>2 (next_fork \<sigma>) = forks \<sigma>1 (next_fork \<sigma>) \<longrightarrow>
             reports_run (Suc j) (next_fork \<sigma>) (next_orch \<sigma>) rs \<sigma>2
               = Some (Done (absorbed (next_fork \<sigma>) rs \<sigma>2))
             \<and> ticks (absorbed (next_fork \<sigma>) rs \<sigma>2) = ticks \<sigma>2
             \<and> timers (absorbed (next_fork \<sigma>) rs \<sigma>2) = timers \<sigma>2
             \<and> trace (absorbed (next_fork \<sigma>) rs \<sigma>2) = trace \<sigma>2
             \<and> exec (Suc j) (report_cmd (next_fork \<sigma>) (next_orch \<sigma>) r)
                 (absorbed (next_fork \<sigma>) rs \<sigma>2)
               = (if \<exists>q \<in> set (rs @ [r]). is_success q
                  then exec j (Call m S (Arr (map (result_at (rs @ [r])) [0..<length as]) []) Drain F)
                         (absorbed (next_fork \<sigma>) (rs @ [r]) \<sigma>2)
                  else exec j (Call m F (result_of r) Drain Drain)
                         (absorbed (next_fork \<sigma>) (rs @ [r]) \<sigma>2)))
       \<and> length (map (result_at (rs @ [r])) [0..<length as]) = length as
       \<and> (\<forall>q \<in> set (rs @ [r]).
             map (result_at (rs @ [r])) [0..<length as] ! index_of q = result_of q)"
proof -
  obtain \<sigma>1 where 1: "exec (Suc k) (App m (Fork as) x S F) \<sigma> = Some (Done \<sigma>1)"
      and fr: "forks \<sigma>1 (next_fork \<sigma>) = \<lparr>fork_M = m, fork_success = S, fork_failure = F,
          fork_length = length as, countUp = 0, errUp = 0, results = [], named = []\<rparr>"
      and q: "ticks \<sigma>1 = ticks \<sigma> @ branch_tasks (next_orch \<sigma>) x (next_fork \<sigma>) 0 as"
        "timers \<sigma>1 = timers \<sigma>" "trace \<sigma>1 = trace \<sigma>"
    using fork_starts[of k m as x S F \<sigma>] by blast
  have 2: "reports_run (Suc j) (next_fork \<sigma>) (next_orch \<sigma>) rs \<sigma>2
               = Some (Done (absorbed (next_fork \<sigma>) rs \<sigma>2))
             \<and> exec (Suc j) (report_cmd (next_fork \<sigma>) (next_orch \<sigma>) r)
                 (absorbed (next_fork \<sigma>) rs \<sigma>2)
               = (if \<exists>q \<in> set (rs @ [r]). is_success q
                  then exec j (Call m S (Arr (map (result_at (rs @ [r])) [0..<length as]) []) Drain F)
                         (absorbed (next_fork \<sigma>) (rs @ [r]) \<sigma>2)
                  else exec j (Call m F (result_of r) Drain Drain)
                         (absorbed (next_fork \<sigma>) (rs @ [r]) \<sigma>2))"
    if "forks \<sigma>2 (next_fork \<sigma>) = forks \<sigma>1 (next_fork \<sigma>)" for \<sigma>2
    using reports_complete[OF that[unfolded fr] assms, of j "next_orch \<sigma>"] by simp
  have 3: "\<forall>q \<in> set (rs @ [r]).
             map (result_at (rs @ [r])) [0..<length as] ! index_of q = result_of q"
    using reports_complete[OF fr assms, of j "next_orch \<sigma>"] by simp
  show ?thesis
    using 1 q 2 3 by (intro exI[of _ \<sigma>1]) simp
qed

theorem fork_collects_results_witness:
  "(\<exists>\<sigma>1. exec (Suc 0) (App 0 (Fork [Raise (Str ''e''), Supply (Num 7)]) (Num 1) (Probe ''s'') (Probe ''f''))
            ExM = Some (Done \<sigma>1)
     \<and> ticks \<sigma>1
        = [Call 1 (ChainD [Raise (Str ''e''), MapTag 0]) (Num 1) (ForkJoin 0)
             (SendKV ''index'' (Num 0) (ForkErrJoin 0)),
           Call 2 (ChainD [Supply (Num 7), MapTag 1]) (Num 1) (ForkJoin 0)
             (SendKV ''index'' (Num 1) (ForkErrJoin 0))]
     \<and> trace \<sigma>1 = []
     \<and> reports_run (Suc 3) 0 1 [Succeeded 1 (Num 7)] \<sigma>1
        = Some (Done (absorbed 0 [Succeeded 1 (Num 7)] \<sigma>1))
     \<and> trace (absorbed 0 [Succeeded 1 (Num 7)] \<sigma>1) = []
     \<and> exec (Suc 3) (report_cmd 0 1 (Failed 0 (IOError 1 (Str ''e'') (Num 1) Drain Drain [])))
          (absorbed 0 [Succeeded 1 (Num 7)] \<sigma>1)
        = exec 3 (Call 0 (Probe ''s'')
             (Arr [IOError 1 (Str ''e'') (Num 1) Drain Drain [], Num 7] []) Drain (Probe ''f''))
            (absorbed 0 ([Succeeded 1 (Num 7)] @ [Failed 0 (IOError 1 (Str ''e'') (Num 1) Drain Drain [])])
               \<sigma>1))
   \<and> map_option trace (run_from 300 6
        (Call 0 (Fork [Seq (Delay 0) (Supply (Num 1)), Raise (Str ''e''), Supply (Num 3)])
           (Num 0) (Probe ''s'') (Probe ''f'')) ExM)
     = Some [(''s'', Arr [Num 1,
          IOError 2 (Str ''e'') (Num 0) (ChainIter [Raise (Str ''e''), MapTag 1] 1 (ForkJoin 0))
            (SendKV ''index'' (Num 1) (ForkErrJoin 0)) [],
          Num 3] [])]
   \<and> map_option trace (run_from 300 6
        (Call 0 (Fork [Raise (Str ''a''), Raise (Str ''b'')]) (Num 0) (Probe ''s'') (Probe ''f''))
        ExM)
     = Some [(''f'', IOError 2 (Str ''b'') (Num 0)
          (ChainIter [Raise (Str ''b''), MapTag 1] 1 (ForkJoin 0))
          (SendKV ''index'' (Num 1) (ForkErrJoin 0)) [])]"
proof -
  let ?rs = "[Succeeded 1 (Num 7)]"
  let ?r = "Failed 0 (IOError 1 (Str ''e'') (Num 1) Drain Drain [])"
  let ?as = "[Raise (Str ''e''), Supply (Num 7)]"
  have b: "mset (map index_of (?rs @ [?r])) = mset [0..<length ?as]"
    by (simp add: upt_rec numeral_eq_Suc)
  have c: "\<forall>q \<in> set (?rs @ [?r]). well_formed q"
    by simp
  have d: "map (result_at (?rs @ [?r])) [0..<length ?as]
         = [IOError 1 (Str ''e'') (Num 1) Drain Drain [], Num 7]"
    by (simp add: upt_rec numeral_eq_Suc result_at_def del_prop_def)
  have e: "\<exists>q \<in> set (?rs @ [?r]). is_success q"
    by simp
  have n: "next_orch ExM = 1" "next_fork ExM = 0" "ticks ExM = []" "trace ExM = []"
    by (simp_all add: ExM_def)
  have t: "branch_tasks 1 (Num 1) 0 0 ?as
     = [Call 1 (ChainD [Raise (Str ''e''), MapTag 0]) (Num 1) (ForkJoin 0)
             (SendKV ''index'' (Num 0) (ForkErrJoin 0)),
        Call 2 (ChainD [Supply (Num 7), MapTag 1]) (Num 1) (ForkJoin 0)
             (SendKV ''index'' (Num 1) (ForkErrJoin 0))]"
    by (simp add: chain_def)
  from fork_collects_results [OF b c, where k = 0 and j = 3 and m = 0 and x = "Num 1"
      and S = "Probe ''s''" and F = "Probe ''f''" and \<sigma> = ExM]
  obtain \<sigma>1 where 1: "exec (Suc 0) (App 0 (Fork ?as) (Num 1) (Probe ''s'') (Probe ''f'')) ExM = Some (Done \<sigma>1)"
    and 2: "ticks \<sigma>1 = ticks ExM @ branch_tasks (next_orch ExM) (Num 1) (next_fork ExM) 0 ?as"
      "trace \<sigma>1 = trace ExM"
    and 3: "\<forall>\<sigma>2. forks \<sigma>2 (next_fork ExM) = forks \<sigma>1 (next_fork ExM) \<longrightarrow>
             reports_run (Suc 3) (next_fork ExM) (next_orch ExM) ?rs \<sigma>2
               = Some (Done (absorbed (next_fork ExM) ?rs \<sigma>2))
             \<and> ticks (absorbed (next_fork ExM) ?rs \<sigma>2) = ticks \<sigma>2
             \<and> timers (absorbed (next_fork ExM) ?rs \<sigma>2) = timers \<sigma>2
             \<and> trace (absorbed (next_fork ExM) ?rs \<sigma>2) = trace \<sigma>2
             \<and> exec (Suc 3) (report_cmd (next_fork ExM) (next_orch ExM) ?r)
                 (absorbed (next_fork ExM) ?rs \<sigma>2)
               = (if \<exists>q \<in> set (?rs @ [?r]). is_success q
                  then exec 3 (Call 0 (Probe ''s'') (Arr (map (result_at (?rs @ [?r])) [0..<length ?as]) [])
                                 Drain (Probe ''f''))
                         (absorbed (next_fork ExM) (?rs @ [?r]) \<sigma>2)
                  else exec 3 (Call 0 (Probe ''f'') (result_of ?r) Drain Drain)
                         (absorbed (next_fork ExM) (?rs @ [?r]) \<sigma>2))"
    by blast
  from 3 have 4: "reports_run (Suc 3) (next_fork ExM) (next_orch ExM) ?rs \<sigma>1
               = Some (Done (absorbed (next_fork ExM) ?rs \<sigma>1))
             \<and> trace (absorbed (next_fork ExM) ?rs \<sigma>1) = trace \<sigma>1
             \<and> exec (Suc 3) (report_cmd (next_fork ExM) (next_orch ExM) ?r)
                 (absorbed (next_fork ExM) ?rs \<sigma>1)
               = (if \<exists>q \<in> set (?rs @ [?r]). is_success q
                  then exec 3 (Call 0 (Probe ''s'') (Arr (map (result_at (?rs @ [?r])) [0..<length ?as]) [])
                                 Drain (Probe ''f''))
                         (absorbed (next_fork ExM) (?rs @ [?r]) \<sigma>1)
                  else exec 3 (Call 0 (Probe ''f'') (result_of ?r) Drain Drain)
                         (absorbed (next_fork ExM) (?rs @ [?r]) \<sigma>1))"
    by blast
  have 5: "\<exists>\<sigma>1. exec (Suc 0) (App 0 (Fork ?as) (Num 1) (Probe ''s'') (Probe ''f'')) ExM = Some (Done \<sigma>1)
     \<and> ticks \<sigma>1
        = [Call 1 (ChainD [Raise (Str ''e''), MapTag 0]) (Num 1) (ForkJoin 0)
             (SendKV ''index'' (Num 0) (ForkErrJoin 0)),
           Call 2 (ChainD [Supply (Num 7), MapTag 1]) (Num 1) (ForkJoin 0)
             (SendKV ''index'' (Num 1) (ForkErrJoin 0))]
     \<and> trace \<sigma>1 = []
     \<and> reports_run (Suc 3) 0 1 ?rs \<sigma>1 = Some (Done (absorbed 0 ?rs \<sigma>1))
     \<and> trace (absorbed 0 ?rs \<sigma>1) = []
     \<and> exec (Suc 3) (report_cmd 0 1 ?r) (absorbed 0 ?rs \<sigma>1)
        = exec 3 (Call 0 (Probe ''s'')
             (Arr [IOError 1 (Str ''e'') (Num 1) Drain Drain [], Num 7] []) Drain (Probe ''f''))
            (absorbed 0 (?rs @ [?r]) \<sigma>1)"
    using 1 2 4 unfolding n t d if_P[OF e]
    by (intro exI[of _ \<sigma>1]) simp
  have 6: "map_option trace (run_from 300 6
        (Call 0 (Fork [Seq (Delay 0) (Supply (Num 1)), Raise (Str ''e''), Supply (Num 3)])
           (Num 0) (Probe ''s'') (Probe ''f'')) ExM)
     = Some [(''s'', Arr [Num 1,
          IOError 2 (Str ''e'') (Num 0) (ChainIter [Raise (Str ''e''), MapTag 1] 1 (ForkJoin 0))
            (SendKV ''index'' (Num 1) (ForkErrJoin 0)) [],
          Num 3] [])]"
    by code_simp
  have 7: "map_option trace (run_from 300 6
        (Call 0 (Fork [Raise (Str ''a''), Raise (Str ''b'')]) (Num 0) (Probe ''s'') (Probe ''f''))
        ExM)
     = Some [(''f'', IOError 2 (Str ''b'') (Num 0)
          (ChainIter [Raise (Str ''b''), MapTag 1] 1 (ForkJoin 0))
          (SendKV ''index'' (Num 1) (ForkErrJoin 0)) [])]"
    by code_simp
  show ?thesis
    using 5 6 7 by blast
qed

text \<open>
  A branch that fails with a value that cannot carry the index, here the number that the
  action \<^verbatim>\<open>fail\<close> passes on: \<^verbatim>\<open>results[undefined] = 9\<close> sets no element, and \<^verbatim>\<open>success\<close> gets
  an array of length one for two branches. And a branch that reports twice, here a
  generator of two values: the second report completes the count, and \<^verbatim>\<open>success\<close> gets an
  array of length one before the other branch has reported.
\<close>

theorem fork_counterexample:
  "map_option trace (run_from 300 4
      (Call 0 (Fork [Supply (Num 5), Fail]) (Num 9) (Probe ''s'') (Probe ''f'')) ExM)
     = Some [(''s'', Arr [Num 5] [(''undefined'', Num 9)])]
   \<and> map_option trace (run_from 300 6
      (Call 0 (Fork [Gen 0, Seq (Delay 0) (Supply (Num 3))]) (Num 0) (Probe ''s'') (Probe ''f''))
      (ExM\<lparr>gens := (\<lambda>_. \<lparr>paused = False, genCount = 0, delay_ms = 0,
                producer = (\<lambda>i. if i < 2 then Num (int i + 1) else Undefined), produced = 0\<rparr>)\<rparr>))
     = Some [(''s'', Arr [Num 2] [])]"
  by code_simp

text \<open>With no branch, \<^verbatim>\<open>forEach\<close> starts nothing and nobody calls \<^verbatim>\<open>join\<close> or \<^verbatim>\<open>errjoin\<close>.\<close>

lemma fork_no_branches:
  "exec (Suc k) (App m (Fork []) x S F) \<sigma>
     = Some (Done (\<sigma>\<lparr>forks := (forks \<sigma>)(next_fork \<sigma> := \<lparr>fork_M = m, fork_success = S,
          fork_failure = F, fork_length = 0, countUp = 0, errUp = 0, results = [], named = []\<rparr>),
        next_fork := next_fork \<sigma> + 1\<rparr>))"
  by (simp add: Let_def)

end
